theory Spec2Isabelle
  imports Main "HOL-Library.Code_Target_Nat"
begin

section \<open>The element type and the memory source\<close>

text \<open>
  \<^verbatim>\<open>vector.h\<close> is a template over the element type \<open>T\<close> and allocates with
  \<^verbatim>\<open>operator new\<close>. Both are collaborators of the code, so they are parameters of the
  model. An element operation either throws or does what its name says on values;
  whether it throws is a predicate on the value it reads (the source object of a copy, a
  move or an assignment). A moved-from object is still alive and holds \<open>moved_from x\<close>.
  Destructors never throw.

  Sizes and indices are \<^verbatim>\<open>size_t\<close> in the source and \<open>nat\<close> here. The two products
  the code computes in \<^verbatim>\<open>size_t\<close>, \<^verbatim>\<open>n * sizeof(T)\<close> in \<^verbatim>\<open>Allocate\<close> and
  \<^verbatim>\<open>size_ * 2\<close> in \<^verbatim>\<open>InsertWithReallocate\<close>, wrap around, and are written
  with \<open>mul_size_t\<close>; \<^verbatim>\<open>size_t\<close> has 64 bits. Increments and pointer offsets stay inside a
  block and do not wrap.

  A call ends in one of three ways. It returns; it throws \<^verbatim>\<open>std::bad_alloc\<close>
  (\<open>BadAlloc\<close>) or the exception of an element operation (\<open>ElemError\<close>); or its behaviour
  is undefined in C++ (\<open>PreconditionViolation\<close>): the caller broke a precondition, or the
  code reads or writes outside a block or an object that is not alive.
  The state is returned in every case, since an exception leaves the object as the code
  had changed it by then.
\<close>

datatype error = BadAlloc | ElemError | PreconditionViolation

definition size_t_limit :: nat where
  "size_t_limit = 2 ^ 64"

definition mul_size_t :: "nat \<Rightarrow> nat \<Rightarrow> nat" where
  "mul_size_t a b = (a * b) mod size_t_limit"

record 'a env =
  sizeof_T :: nat
  nothrow_move_constructible :: bool
  copy_constructible :: bool
  default_ctor :: "'a option"
  copy_throws :: "'a \<Rightarrow> bool"
  move_throws :: "'a \<Rightarrow> bool"
  moved_from :: "'a \<Rightarrow> 'a"
  copy_assign_throws :: "'a \<Rightarrow> bool"
  move_assign_throws :: "'a \<Rightarrow> bool"
  alloc_ok :: "nat \<Rightarrow> bool"

text \<open>
  \<open>nothrow_move_constructible\<close> and \<open>copy_constructible\<close> are the two type traits that
  \<^verbatim>\<open>MoveItemsInNewMemory\<close> tests. \<open>default_ctor\<close> is the outcome of \<^verbatim>\<open>T()\<close>
  (\<open>None\<close> when it throws). \<open>sizeof_T\<close> is \<^verbatim>\<open>sizeof(T)\<close>, which is at least 1 for every
  C++ type. \<open>alloc_ok b\<close> says that \<^verbatim>\<open>operator new\<close> grants a request for \<open>b\<close> bytes.
\<close>

section \<open>Raw memory\<close>

text \<open>
  A slot of a block is uninitialised memory or holds a live object. The members
  \<^verbatim>\<open>buffer_\<close>, \<^verbatim>\<open>capacity_\<close>, \<^verbatim>\<open>data_\<close> and \<^verbatim>\<open>size_\<close> of the source are the fields
  \<open>buffer_m\<close>, \<open>capacity_m\<close>, \<open>data_m\<close> and \<open>size_m\<close>.
\<close>

datatype 'a slot = Raw | Obj 'a

record 'a RawMemory =
  buffer_m :: "'a slot list"
  capacity_m :: nat

text \<open>
  \<^verbatim>\<open>Allocate(n)\<close> asks \<^verbatim>\<open>operator new\<close> for \<^verbatim>\<open>n * sizeof(T)\<close> bytes, the product
  taken in \<^verbatim>\<open>size_t\<close>. The block it gets has room for as many objects as fit into that
  many bytes: \<open>n\<close> of them when the product did not wrap, fewer when it did.
\<close>

definition Allocate :: "'a env \<Rightarrow> nat \<Rightarrow> error + 'a slot list" where
  "Allocate E n =
     (if n \<noteq> 0
      then (let bytes = mul_size_t n (sizeof_T E) in
            if alloc_ok E bytes then Inr (replicate (bytes div sizeof_T E) Raw) else Inl BadAlloc)
      else Inr [])"

definition RawMemory_default :: "'a RawMemory" where
  "RawMemory_default = \<lparr>buffer_m = [], capacity_m = 0\<rparr>"

definition RawMemory_sized :: "'a env \<Rightarrow> nat \<Rightarrow> error + 'a RawMemory" where
  "RawMemory_sized E capacity =
     (case Allocate E capacity of
        Inl e \<Rightarrow> Inl e
      | Inr b \<Rightarrow> Inr \<lparr>buffer_m = b, capacity_m = capacity\<rparr>)"

definition RawMemory_Swap :: "'a RawMemory \<Rightarrow> 'a RawMemory \<Rightarrow> 'a RawMemory \<times> 'a RawMemory" where
  "RawMemory_Swap this other =
     (this\<lparr>buffer_m := buffer_m other, capacity_m := capacity_m other\<rparr>,
      other\<lparr>buffer_m := buffer_m this, capacity_m := capacity_m this\<rparr>)"

definition RawMemory_Capacity :: "'a RawMemory \<Rightarrow> nat" where
  "RawMemory_Capacity m = capacity_m m"

text \<open>
  Dereferencing a pointer \<open>buf + i\<close>: the object in slot \<open>i\<close>. Reading outside the block
  or reading uninitialised memory is undefined in C++; the model answers \<open>None\<close> and
  the caller reports \<open>PreconditionViolation\<close>.
\<close>

definition read_obj :: "'a slot list \<Rightarrow> nat \<Rightarrow> 'a option" where
  "read_obj buf i =
     (if i < length buf then (case buf ! i of Obj x \<Rightarrow> Some x | Raw \<Rightarrow> None) else None)"

section \<open>The standard algorithms the vector calls\<close>

text \<open>
  A pointer is a block and an offset. Each algorithm returns the exception it threw, if
  any, and the blocks as it left them. The \<open>uninitialized_\<close> algorithms destroy what they
  built before they rethrow.
\<close>

fun destroy_n :: "'a slot list \<Rightarrow> nat \<Rightarrow> nat \<Rightarrow> 'a slot list" where
  "destroy_n buf first 0 = buf"
| "destroy_n buf first (Suc n) = destroy_n (buf[first := Raw]) (Suc first) n"

fun uninitialized_value_construct_n ::
  "'a env \<Rightarrow> 'a slot list \<Rightarrow> nat \<Rightarrow> nat \<Rightarrow> error option \<times> 'a slot list" where
  "uninitialized_value_construct_n E buf first 0 = (None, buf)"
| "uninitialized_value_construct_n E buf first (Suc n) =
     (if length buf \<le> first then (Some PreconditionViolation, buf)
      else (case default_ctor E of
              None \<Rightarrow> (Some ElemError, buf)
            | Some d \<Rightarrow>
               (case uninitialized_value_construct_n E (buf[first := Obj d]) (Suc first) n of
                  (None, buf') \<Rightarrow> (None, buf')
                | (Some e, buf') \<Rightarrow> (Some e, buf'[first := Raw]))))"

fun uninitialized_copy_n ::
  "'a env \<Rightarrow> 'a slot list \<Rightarrow> nat \<Rightarrow> nat \<Rightarrow> 'a slot list \<Rightarrow> nat \<Rightarrow> error option \<times> 'a slot list" where
  "uninitialized_copy_n E src first 0 dst d_first = (None, dst)"
| "uninitialized_copy_n E src first (Suc n) dst d_first =
     (case read_obj src first of
        None \<Rightarrow> (Some PreconditionViolation, dst)
      | Some x \<Rightarrow>
         (if length dst \<le> d_first then (Some PreconditionViolation, dst)
          else if copy_throws E x then (Some ElemError, dst)
          else (case uninitialized_copy_n E src (Suc first) n (dst[d_first := Obj x]) (Suc d_first) of
                  (None, dst') \<Rightarrow> (None, dst')
                | (Some e, dst') \<Rightarrow> (Some e, dst'[d_first := Raw]))))"

fun uninitialized_move_n ::
  "'a env \<Rightarrow> 'a slot list \<Rightarrow> nat \<Rightarrow> nat \<Rightarrow> 'a slot list \<Rightarrow> nat
     \<Rightarrow> error option \<times> 'a slot list \<times> 'a slot list" where
  "uninitialized_move_n E src first 0 dst d_first = (None, src, dst)"
| "uninitialized_move_n E src first (Suc n) dst d_first =
     (case read_obj src first of
        None \<Rightarrow> (Some PreconditionViolation, src, dst)
      | Some x \<Rightarrow>
         (if length dst \<le> d_first then (Some PreconditionViolation, src, dst)
          else if move_throws E x then (Some ElemError, src, dst)
          else (case uninitialized_move_n E (src[first := Obj (moved_from E x)]) (Suc first) n
                       (dst[d_first := Obj x]) (Suc d_first) of
                  (None, src', dst') \<Rightarrow> (None, src', dst')
                | (Some e, src', dst') \<Rightarrow> (Some e, src', dst'[d_first := Raw]))))"

text \<open>\<^verbatim>\<open>std::copy_n\<close>: copy assignment onto live objects of another block.\<close>

fun copy_n ::
  "'a env \<Rightarrow> 'a slot list \<Rightarrow> nat \<Rightarrow> nat \<Rightarrow> 'a slot list \<Rightarrow> nat \<Rightarrow> error option \<times> 'a slot list" where
  "copy_n E src first 0 dst d_first = (None, dst)"
| "copy_n E src first (Suc n) dst d_first =
     (case (read_obj src first, read_obj dst d_first) of
        (Some x, Some y) \<Rightarrow>
          (if copy_assign_throws E x then (Some ElemError, dst)
           else copy_n E src (Suc first) n (dst[d_first := Obj x]) (Suc d_first))
      | _ \<Rightarrow> (Some PreconditionViolation, dst))"

text \<open>
  \<^verbatim>\<open>std::move(first, last, d_first)\<close> and \<^verbatim>\<open>std::move_backward(first, last, d_last)\<close>
  inside one block: move assignment, front to back and back to front. A range with
  \<open>last < first\<close> is undefined in C++.
\<close>

fun move_n :: "'a env \<Rightarrow> 'a slot list \<Rightarrow> nat \<Rightarrow> nat \<Rightarrow> nat \<Rightarrow> error option \<times> 'a slot list" where
  "move_n E buf first 0 d_first = (None, buf)"
| "move_n E buf first (Suc n) d_first =
     (case (read_obj buf first, read_obj buf d_first) of
        (Some x, Some y) \<Rightarrow>
          (if move_assign_throws E x then (Some ElemError, buf)
           else move_n E (buf[d_first := Obj x, first := Obj (moved_from E x)])
                  (Suc first) n (Suc d_first))
      | _ \<Rightarrow> (Some PreconditionViolation, buf))"

definition std_move :: "'a env \<Rightarrow> 'a slot list \<Rightarrow> nat \<Rightarrow> nat \<Rightarrow> nat \<Rightarrow> error option \<times> 'a slot list" where
  "std_move E buf first lst d_first =
     (if lst < first then (Some PreconditionViolation, buf)
      else move_n E buf first (lst - first) d_first)"

fun move_backward_n :: "'a env \<Rightarrow> 'a slot list \<Rightarrow> nat \<Rightarrow> nat \<Rightarrow> nat \<Rightarrow> error option \<times> 'a slot list" where
  "move_backward_n E buf lst 0 d_last = (None, buf)"
| "move_backward_n E buf lst (Suc n) d_last =
     (if lst = 0 \<or> d_last = 0 then (Some PreconditionViolation, buf)
      else (case (read_obj buf (lst - 1), read_obj buf (d_last - 1)) of
              (Some x, Some y) \<Rightarrow>
                (if move_assign_throws E x then (Some ElemError, buf)
                 else move_backward_n E (buf[d_last - 1 := Obj x, lst - 1 := Obj (moved_from E x)])
                        (lst - 1) n (d_last - 1))
            | _ \<Rightarrow> (Some PreconditionViolation, buf)))"

definition move_backward :: "'a env \<Rightarrow> 'a slot list \<Rightarrow> nat \<Rightarrow> nat \<Rightarrow> nat \<Rightarrow> error option \<times> 'a slot list" where
  "move_backward E buf first lst d_last =
     (if lst < first then (Some PreconditionViolation, buf)
      else move_backward_n E buf lst (lst - first) d_last)"

section \<open>The vector\<close>

record 'a Vector =
  data_m :: "'a RawMemory"
  size_m :: nat

definition Size :: "'a Vector \<Rightarrow> nat" where
  "Size v = size_m v"

definition Capacity :: "'a Vector \<Rightarrow> nat" where
  "Capacity v = RawMemory_Capacity (data_m v)"

text \<open>\<^verbatim>\<open>data_.GetAddress()\<close>, and the vector after the algorithms wrote to its block.\<close>

definition GetAddress :: "'a Vector \<Rightarrow> 'a slot list" where
  "GetAddress v = buffer_m (data_m v)"

definition with_buffer :: "'a Vector \<Rightarrow> 'a slot list \<Rightarrow> 'a Vector" where
  "with_buffer v b = v\<lparr>data_m := (data_m v)\<lparr>buffer_m := b\<rparr>\<rparr>"

text \<open>
  An iterator is a \<^verbatim>\<open>T*\<close> into the block; it is modelled by its offset from
  \<^verbatim>\<open>data_.GetAddress()\<close>, so \<open>begin\<close> is offset \<open>0\<close> of the current block.
\<close>

definition begin_it :: "'a Vector \<Rightarrow> nat" where
  "begin_it v = 0"

definition end_it :: "'a Vector \<Rightarrow> nat" where
  "end_it v = begin_it v + size_m v"

definition Vector_default :: "'a Vector" where
  "Vector_default = \<lparr>data_m = RawMemory_default, size_m = 0\<rparr>"

definition Vector_sized :: "'a env \<Rightarrow> nat \<Rightarrow> error + 'a Vector" where
  "Vector_sized E n =
     (case RawMemory_sized E n of
        Inl e \<Rightarrow> Inl e
      | Inr d \<Rightarrow>
         (case uninitialized_value_construct_n E (buffer_m d) 0 n of
            (Some e, b) \<Rightarrow> Inl e
          | (None, b) \<Rightarrow> Inr \<lparr>data_m = d\<lparr>buffer_m := b\<rparr>, size_m = n\<rparr>))"

definition Vector_copy :: "'a env \<Rightarrow> 'a Vector \<Rightarrow> error + 'a Vector" where
  "Vector_copy E other =
     (case RawMemory_sized E (size_m other) of
        Inl e \<Rightarrow> Inl e
      | Inr d \<Rightarrow>
         (case uninitialized_copy_n E (GetAddress other) 0 (size_m other) (buffer_m d) 0 of
            (Some e, b) \<Rightarrow> Inl e
          | (None, b) \<Rightarrow> Inr \<lparr>data_m = d\<lparr>buffer_m := b\<rparr>, size_m = size_m other\<rparr>))"

definition Swap :: "'a Vector \<Rightarrow> 'a Vector \<Rightarrow> 'a Vector \<times> 'a Vector" where
  "Swap this other =
     (case RawMemory_Swap (data_m this) (data_m other) of
        (d, od) \<Rightarrow> (\<lparr>data_m = d, size_m = size_m other\<rparr>, \<lparr>data_m = od, size_m = size_m this\<rparr>))"

text \<open>The move constructor: a default vector swapped with the source; both are returned.\<close>

definition Vector_move :: "'a Vector \<Rightarrow> 'a Vector \<times> 'a Vector" where
  "Vector_move other = Swap Vector_default other"

text \<open>
  \<^verbatim>\<open>MoveItemsInNewMemory(from, to, count)\<close>: \<open>src\<close> at offset \<open>first\<close> is \<^verbatim>\<open>from\<close>,
  \<open>dst\<close> at offset \<open>d_first\<close> is \<^verbatim>\<open>to\<close>.
\<close>

definition MoveItemsInNewMemory ::
  "'a env \<Rightarrow> 'a slot list \<Rightarrow> nat \<Rightarrow> 'a slot list \<Rightarrow> nat \<Rightarrow> nat
     \<Rightarrow> error option \<times> 'a slot list \<times> 'a slot list" where
  "MoveItemsInNewMemory E src first dst d_first count =
     (case (if nothrow_move_constructible E \<or> \<not> copy_constructible E
            then uninitialized_move_n E src first count dst d_first
            else (case uninitialized_copy_n E src first count dst d_first of
                    (r, dst') \<Rightarrow> (r, src, dst'))) of
        (Some e, src', dst') \<Rightarrow> (Some e, src', dst')
      | (None, src', dst') \<Rightarrow> (None, destroy_n src' first count, dst'))"

definition Reserve :: "'a env \<Rightarrow> 'a Vector \<Rightarrow> nat \<Rightarrow> error option \<times> 'a Vector" where
  "Reserve E v new_capacity =
     (if new_capacity \<le> Capacity v then (None, v)
      else (case RawMemory_sized E new_capacity of
              Inl e \<Rightarrow> (Some e, v)
            | Inr new_data \<Rightarrow>
               (case MoveItemsInNewMemory E (GetAddress v) 0 (buffer_m new_data) 0 (size_m v) of
                  (Some e, src', dst') \<Rightarrow> (Some e, with_buffer v src')
                | (None, src', dst') \<Rightarrow>
                    (None, v\<lparr>data_m := fst (RawMemory_Swap (data_m (with_buffer v src'))
                                              (new_data\<lparr>buffer_m := dst'\<rparr>))\<rparr>))))"

definition Resize :: "'a env \<Rightarrow> 'a Vector \<Rightarrow> nat \<Rightarrow> error option \<times> 'a Vector" where
  "Resize E v new_size =
     (let v1 = (if new_size < size_m v
                then with_buffer v (destroy_n (GetAddress v) new_size (size_m v - new_size))
                else v)
      in if new_size > size_m v1
         then (case (if new_size > Capacity v1 then Reserve E v1 new_size else (None, v1)) of
                 (Some e, v2) \<Rightarrow> (Some e, v2)
               | (None, v2) \<Rightarrow>
                  (case uninitialized_value_construct_n E (GetAddress v2) (size_m v2)
                          (new_size - size_m v2) of
                     (Some e, b) \<Rightarrow> (Some e, with_buffer v2 b)
                   | (None, b) \<Rightarrow> (None, (with_buffer v2 b)\<lparr>size_m := new_size\<rparr>)))
         else (None, v1\<lparr>size_m := new_size\<rparr>))"

text \<open>
  \<^verbatim>\<open>PopBack\<close> on an empty vector wraps \<^verbatim>\<open>size_\<close> and destroys an object that does
  not exist: undefined in C++, \<open>PreconditionViolation\<close> here.
\<close>

definition PopBack :: "'a Vector \<Rightarrow> error option \<times> 'a Vector" where
  "PopBack v =
     (if size_m v = 0 then (Some PreconditionViolation, v)
      else (None, (with_buffer v (destroy_n (GetAddress v) (size_m v - 1) 1))\<lparr>size_m := size_m v - 1\<rparr>))"

text \<open>
  \<open>args\<close> is the outcome of \<^verbatim>\<open>T(std::forward<Args>(args)...)\<close>: the value built, or
  \<open>None\<close> when that constructor throws. It is run once on every path, at the place where
  the model inspects \<open>args\<close>.
\<close>

definition InsertWithReallocate ::
  "'a env \<Rightarrow> 'a Vector \<Rightarrow> nat \<Rightarrow> 'a option \<Rightarrow> error option \<times> 'a Vector" where
  "InsertWithReallocate E v index args =
     (case RawMemory_sized E (if size_m v = 0 then 1 else mul_size_t (size_m v) 2) of
        Inl e \<Rightarrow> (Some e, v)
      | Inr new_data \<Rightarrow>
         (case args of
            None \<Rightarrow> (Some ElemError, v)
          | Some x \<Rightarrow>
             (if length (buffer_m new_data) \<le> index then (Some PreconditionViolation, v)
              else (case MoveItemsInNewMemory E (GetAddress v) 0
                           ((buffer_m new_data)[index := Obj x]) 0 index of
                      (Some e, src1, dst1) \<Rightarrow> (Some e, with_buffer v src1)
                    | (None, src1, dst1) \<Rightarrow>
                       (case MoveItemsInNewMemory E src1 index dst1 (index + 1) (size_m v - index) of
                          (Some e, src2, dst2) \<Rightarrow> (Some e, with_buffer v src2)
                        | (None, src2, dst2) \<Rightarrow>
                            (None, v\<lparr>data_m := fst (RawMemory_Swap (data_m (with_buffer v src2))
                                                      (new_data\<lparr>buffer_m := dst2\<rparr>))\<rparr>))))))"

definition InsertInPlace ::
  "'a env \<Rightarrow> 'a Vector \<Rightarrow> nat \<Rightarrow> 'a option \<Rightarrow> error option \<times> 'a Vector" where
  "InsertInPlace E v index args =
     (if index = size_m v
      then (case args of
              None \<Rightarrow> (Some ElemError, v)
            | Some x \<Rightarrow>
               (if length (GetAddress v) \<le> size_m v then (Some PreconditionViolation, v)
                else (None, with_buffer v ((GetAddress v)[size_m v := Obj x]))))
      else (case args of
              None \<Rightarrow> (Some ElemError, v)
            | Some temp \<Rightarrow>
               (if size_m v = 0 \<or> length (GetAddress v) \<le> size_m v
                then (Some PreconditionViolation, v)
                else (case read_obj (GetAddress v) (begin_it v + size_m v - 1) of
                        None \<Rightarrow> (Some PreconditionViolation, v)
                      | Some l \<Rightarrow>
                         (if move_throws E l then (Some ElemError, v)
                          else (case move_backward E
                                       ((GetAddress v)[begin_it v + size_m v - 1 := Obj (moved_from E l),
                                                       size_m v := Obj l])
                                       (begin_it v + index) (end_it v - 1) (begin_it v + size_m v) of
                                  (Some e, b) \<Rightarrow> (Some e, with_buffer v b)
                                | (None, b) \<Rightarrow>
                                   (case read_obj b (begin_it v + index) of
                                      None \<Rightarrow> (Some PreconditionViolation, with_buffer v b)
                                    | Some y \<Rightarrow>
                                       (if move_assign_throws E temp
                                        then (Some ElemError, with_buffer v b)
                                        else (None, with_buffer v
                                                      (b[begin_it v + index := Obj temp]))))))))))"

text \<open>
  \<open>pos\<close> must lie in \<open>[begin, end]\<close>; anything else is undefined in C++ and
  \<open>PreconditionViolation\<close> here. The result is the iterator \<^verbatim>\<open>begin() + index\<close>.
\<close>

definition Emplace :: "'a env \<Rightarrow> 'a Vector \<Rightarrow> nat \<Rightarrow> 'a option \<Rightarrow> (error + nat) \<times> 'a Vector" where
  "Emplace E v pos args =
     (if pos < begin_it v \<or> end_it v < pos then (Inl PreconditionViolation, v)
      else (let index = pos - begin_it v in
            (case (if size_m v = Capacity v \<or> index = Capacity v
                   then InsertWithReallocate E v index args
                   else InsertInPlace E v index args) of
               (Some e, v') \<Rightarrow> (Inl e, v')
             | (None, v') \<Rightarrow>
                 (let v'' = v'\<lparr>size_m := size_m v' + 1\<rparr> in (Inr (begin_it v'' + index), v'')))))"

text \<open>
  \<open>pos\<close> must lie in \<open>[begin, end)\<close>. The result is the iterator \<^verbatim>\<open>begin() + index\<close>.
\<close>

definition Erase :: "'a env \<Rightarrow> 'a Vector \<Rightarrow> nat \<Rightarrow> (error + nat) \<times> 'a Vector" where
  "Erase E v pos =
     (if pos < begin_it v \<or> end_it v \<le> pos then (Inl PreconditionViolation, v)
      else (let index = pos - begin_it v in
            (case std_move E (GetAddress v) (begin_it v + index + 1) (end_it v) (begin_it v + index) of
               (Some e, b) \<Rightarrow> (Inl e, with_buffer v b)
             | (None, b) \<Rightarrow>
                 (let v' = (with_buffer v (destroy_n b (size_m v - 1) 1))\<lparr>size_m := size_m v - 1\<rparr>
                  in (Inr (begin_it v' + index), v')))))"

text \<open>
  \<^verbatim>\<open>Insert(pos, const T&)\<close> builds the element with the copy constructor,
  \<^verbatim>\<open>Insert(pos, T&&)\<close> with the move constructor.
\<close>

definition Insert :: "'a env \<Rightarrow> 'a Vector \<Rightarrow> nat \<Rightarrow> 'a \<Rightarrow> (error + nat) \<times> 'a Vector" where
  "Insert E v pos val = Emplace E v pos (if copy_throws E val then None else Some val)"

definition Insert_rvalue :: "'a env \<Rightarrow> 'a Vector \<Rightarrow> nat \<Rightarrow> 'a \<Rightarrow> (error + nat) \<times> 'a Vector" where
  "Insert_rvalue E v pos val = Emplace E v pos (if move_throws E val then None else Some val)"

text \<open>
  \<^verbatim>\<open>EmplaceBack\<close> returns \<^verbatim>\<open>data_[size_ - 1]\<close>: a reference, modelled by its index;
  \<^verbatim>\<open>RawMemory::operator[]\<close> asserts that the index is below the capacity.
\<close>

definition EmplaceBack :: "'a env \<Rightarrow> 'a Vector \<Rightarrow> 'a option \<Rightarrow> (error + nat) \<times> 'a Vector" where
  "EmplaceBack E v args =
     (case Emplace E v (begin_it v + size_m v) args of
        (Inl e, v') \<Rightarrow> (Inl e, v')
      | (Inr it, v') \<Rightarrow>
          (if size_m v' = 0 \<or> capacity_m (data_m v') \<le> size_m v' - 1
           then (Inl PreconditionViolation, v')
           else (Inr (size_m v' - 1), v')))"

definition PushBack :: "'a env \<Rightarrow> 'a Vector \<Rightarrow> 'a \<Rightarrow> error option \<times> 'a Vector" where
  "PushBack E v val =
     (case EmplaceBack E v (if copy_throws E val then None else Some val) of
        (Inl e, v') \<Rightarrow> (Some e, v')
      | (Inr r, v') \<Rightarrow> (None, v'))"

definition PushBack_rvalue :: "'a env \<Rightarrow> 'a Vector \<Rightarrow> 'a \<Rightarrow> error option \<times> 'a Vector" where
  "PushBack_rvalue E v val =
     (case EmplaceBack E v (if move_throws E val then None else Some val) of
        (Inl e, v') \<Rightarrow> (Some e, v')
      | (Inr r, v') \<Rightarrow> (None, v'))"

text \<open>\<^verbatim>\<open>operator[]\<close> asserts \<open>index < size_m\<close>.\<close>

definition at_index :: "'a Vector \<Rightarrow> nat \<Rightarrow> 'a option" where
  "at_index v index = (if index < size_m v then read_obj (GetAddress v) index else None)"

subsection \<open>Assignment\<close>

text \<open>
  The body of the copy assignment, for \<open>this\<close> and \<open>rhs\<close> two different objects (their
  blocks are then disjoint). In the first branch the temporary takes the old contents of
  \<open>this\<close> in the swap and destroys them.
\<close>

definition copy_assign_body :: "'a env \<Rightarrow> 'a Vector \<Rightarrow> 'a Vector \<Rightarrow> error option \<times> 'a Vector" where
  "copy_assign_body E this rhs =
     (if size_m rhs > RawMemory_Capacity (data_m this)
      then (case Vector_copy E rhs of
              Inl e \<Rightarrow> (Some e, this)
            | Inr temp \<Rightarrow> (None, fst (Swap this temp)))
      else (let m = min (size_m rhs) (size_m this) in
            (case copy_n E (GetAddress rhs) 0 m (GetAddress this) 0 of
               (Some e, b) \<Rightarrow> (Some e, with_buffer this b)
             | (None, b1) \<Rightarrow>
                (case uninitialized_copy_n E (GetAddress rhs) m (size_m rhs - m) b1 m of
                   (Some e, b) \<Rightarrow> (Some e, with_buffer this b)
                 | (None, b2) \<Rightarrow>
                    (let b3 = (if size_m rhs < size_m this
                               then destroy_n b2 (size_m rhs) (size_m this - size_m rhs)
                               else b2)
                     in (None, (with_buffer this b3)\<lparr>size_m := size_m rhs\<rparr>))))))"

text \<open>
  Both assignment operators compare the addresses of \<open>this\<close> and \<open>rhs\<close>, so they are
  modelled on a store of vector objects: \<open>this\<close> and \<open>rhs\<close> are addresses in it.
\<close>

type_synonym 'a store = "nat \<Rightarrow> 'a Vector"

definition assign_copy :: "'a env \<Rightarrow> 'a store \<Rightarrow> nat \<Rightarrow> nat \<Rightarrow> error option \<times> 'a store" where
  "assign_copy E st this rhs =
     (if this \<noteq> rhs
      then (case copy_assign_body E (st this) (st rhs) of
              (r, this') \<Rightarrow> (r, st(this := this')))
      else (None, st))"

definition assign_move :: "'a store \<Rightarrow> nat \<Rightarrow> nat \<Rightarrow> 'a store" where
  "assign_move st this rhs =
     (if this \<noteq> rhs
      then (case Swap (st this) (st rhs) of
              (this', rhs') \<Rightarrow> st(this := this', rhs := rhs'))
      else st)"

section \<open>Well-formed vectors\<close>

text \<open>
  The invariant of the data model: the capacity is the length of the block, the size is at
  most the capacity, the first \<open>size_m\<close> slots hold live objects and the others are
  uninitialised.
\<close>

definition is_obj :: "'a slot \<Rightarrow> bool" where
  "is_obj s = (case s of Obj x \<Rightarrow> True | Raw \<Rightarrow> False)"

definition valid :: "'a Vector \<Rightarrow> bool" where
  "valid v \<longleftrightarrow>
     capacity_m (data_m v) = length (buffer_m (data_m v)) \<and>
     size_m v \<le> capacity_m (data_m v) \<and>
     list_all is_obj (take (size_m v) (buffer_m (data_m v))) \<and>
     list_all (\<lambda>s. s = Raw) (drop (size_m v) (buffer_m (data_m v)))"

text \<open>The live elements of a vector, in index order.\<close>

fun objs :: "'a slot list \<Rightarrow> 'a list" where
  "objs [] = []"
| "objs (Raw # ss) = objs ss"
| "objs (Obj x # ss) = x # objs ss"

definition elems :: "'a Vector \<Rightarrow> 'a list" where
  "elems v = objs (take (size_m v) (buffer_m (data_m v)))"

text \<open>The well-formed vector with elements \<open>xs\<close> and capacity \<open>c\<close>.\<close>

definition vec :: "'a list \<Rightarrow> nat \<Rightarrow> 'a Vector" where
  "vec xs c = \<lparr>data_m = \<lparr>buffer_m = map Obj xs @ replicate (c - length xs) Raw, capacity_m = c\<rparr>,
               size_m = length xs\<rparr>"

section \<open>Specification functions\<close>

text \<open>
  What the algorithms leave behind, as functions on lists of values; they appear in the
  statements of the lemmas. \<open>moved_prefix E xs\<close> is the source after
  \<^verbatim>\<open>uninitialized_move_n\<close> on \<open>xs\<close>: the elements before the first throwing move are
  moved-from, the others untouched.
\<close>

fun moved_prefix :: "'a env \<Rightarrow> 'a list \<Rightarrow> 'a list" where
  "moved_prefix E [] = []"
| "moved_prefix E (x # xs) =
     (if move_throws E x then x # xs else moved_from E x # moved_prefix E xs)"

text \<open>
  \<open>assigned_prefix E xs ys\<close> is the destination \<open>ys\<close> after \<^verbatim>\<open>copy_n\<close> from \<open>xs\<close>: the
  elements before the first throwing copy assignment are overwritten.
\<close>

fun assigned_prefix :: "'a env \<Rightarrow> 'a list \<Rightarrow> 'a list \<Rightarrow> 'a list" where
  "assigned_prefix E (x # xs) (y # ys) =
     (if copy_assign_throws E x then y # ys else x # assigned_prefix E xs ys)"
| "assigned_prefix E xs ys = ys"

text \<open>
  \<open>shifted E y xs\<close> is the range \<open>y # xs\<close> after the elements \<open>xs\<close> were move-assigned one
  slot to the left, up to the first throwing move assignment.
\<close>

fun shifted :: "'a env \<Rightarrow> 'a \<Rightarrow> 'a list \<Rightarrow> 'a list" where
  "shifted E y [] = [y]"
| "shifted E y (x # xs) =
     (if move_assign_throws E x then y # x # xs else x # shifted E (moved_from E x) xs)"

text \<open>
  The condition of \<^verbatim>\<open>MoveItemsInNewMemory\<close>, whether a relocation of \<open>xs\<close> throws, and what
  a throwing relocation leaves in the source.
\<close>

definition relocates_by_move :: "'a env \<Rightarrow> bool" where
  "relocates_by_move E \<longleftrightarrow> nothrow_move_constructible E \<or> \<not> copy_constructible E"

definition relocation_fails :: "'a env \<Rightarrow> 'a list \<Rightarrow> bool" where
  "relocation_fails E xs \<longleftrightarrow>
     (if relocates_by_move E then \<exists>x\<in>set xs. move_throws E x else \<exists>x\<in>set xs. copy_throws E x)"

definition left_behind :: "'a env \<Rightarrow> 'a list \<Rightarrow> 'a list" where
  "left_behind E xs = (if relocates_by_move E then moved_prefix E xs else xs)"

text \<open>
  A request for \<open>n\<close> elements fits when its byte count does not wrap; the memory source
  grants it when it fits and \<^verbatim>\<open>operator new\<close> returns a block of that many bytes.
  \<open>slots E n\<close> is the number of objects for which the block of \<^verbatim>\<open>Allocate(n)\<close> has room.
\<close>

definition fits :: "'a env \<Rightarrow> nat \<Rightarrow> bool" where
  "fits E n \<longleftrightarrow> 0 < sizeof_T E \<and> n * sizeof_T E < size_t_limit"

definition grants :: "'a env \<Rightarrow> nat \<Rightarrow> bool" where
  "grants E n \<longleftrightarrow> fits E n \<and> alloc_ok E (n * sizeof_T E)"

definition slots :: "'a env \<Rightarrow> nat \<Rightarrow> nat" where
  "slots E n = (if n = 0 then 0 else mul_size_t n (sizeof_T E) div sizeof_T E)"

text \<open>
  The capacity \<^verbatim>\<open>size_ == 0 ? 1 : size_ * 2\<close> of the new block when the product does
  not wrap, and whether the in-place insertion of \<open>x\<close> before the elements \<open>zs\<close> throws.
\<close>

definition grown :: "nat \<Rightarrow> nat" where
  "grown n = (if n = 0 then 1 else n * 2)"

definition inplace_fails :: "'a env \<Rightarrow> 'a list \<Rightarrow> 'a \<Rightarrow> bool" where
  "inplace_fails E zs x \<longleftrightarrow>
     zs \<noteq> [] \<and> (move_throws E (last zs) \<or> (\<exists>y\<in>set (butlast zs). move_assign_throws E y)
                 \<or> move_assign_throws E x)"

text \<open>No element operation throws on any of the values \<open>xs\<close>.\<close>

definition quiet :: "'a env \<Rightarrow> 'a list \<Rightarrow> bool" where
  "quiet E xs =
     list_all (\<lambda>x. \<not> copy_throws E x \<and> \<not> move_throws E x \<and>
                    \<not> copy_assign_throws E x \<and> \<not> move_assign_throws E x) xs"

text \<open>
  An element type like \<^verbatim>\<open>int\<close> over \<open>nat\<close> values: four bytes, no operation throws, a
  move leaves the value in place, and the memory source grants every request.
\<close>

definition int_like :: "nat env" where
  "int_like = \<lparr>sizeof_T = 4, nothrow_move_constructible = True, copy_constructible = True,
     default_ctor = Some 0, copy_throws = (\<lambda>x. False), move_throws = (\<lambda>x. False),
     moved_from = (\<lambda>x. x), copy_assign_throws = (\<lambda>x. False),
     move_assign_throws = (\<lambda>x. False), alloc_ok = (\<lambda>n. True)\<rparr>"

text \<open>A store with the vector \<open>[1]\<close> at address 0 and \<open>[1, 2, 3]\<close> at address 1.\<close>

definition two_vectors :: "nat store" where
  "two_vectors = (\<lambda>a. Vector_default)(0 := vec [1] 1, 1 := vec [1, 2, 3] 4)"

text \<open>
  A copyable element type whose move constructor is not \<^verbatim>\<open>noexcept\<close> and whose copy
  constructor throws on the value 2.
\<close>

definition copy_may_throw :: "nat env" where
  "copy_may_throw = int_like\<lparr>nothrow_move_constructible := False, copy_throws := (\<lambda>x. x = 2)\<rparr>"

text \<open>The element type \<open>int_like\<close> with a memory source that refuses every request.\<close>

definition out_of_memory :: "nat env" where
  "out_of_memory = int_like\<lparr>alloc_ok := (\<lambda>b. False)\<rparr>"

text \<open>
  Sequences of operations on one vector. An assignment names its source, another vector
  object. \<open>run\<close> performs the operations in order and returns the outcome of each (the
  exception it threw, if any) and the vector at the end: a caller that catches an
  exception goes on with the vector as the failed call left it.
\<close>

datatype 'a operation =
    Op_Reserve nat
  | Op_Resize nat
  | Op_PushBack 'a
  | Op_PushBack_rvalue 'a
  | Op_PopBack
  | Op_EmplaceBack "'a option"
  | Op_Emplace nat "'a option"
  | Op_Insert nat 'a
  | Op_Insert_rvalue nat 'a
  | Op_Erase nat
  | Op_CopyAssign "'a Vector"
  | Op_MoveAssign "'a Vector"

definition iterator_result :: "(error + nat) \<times> 'a Vector \<Rightarrow> error option \<times> 'a Vector" where
  "iterator_result r = (case r of (Inl e, v) \<Rightarrow> (Some e, v) | (Inr it, v) \<Rightarrow> (None, v))"

fun apply_operation :: "'a env \<Rightarrow> 'a Vector \<Rightarrow> 'a operation \<Rightarrow> error option \<times> 'a Vector" where
  "apply_operation E v (Op_Reserve n) = Reserve E v n"
| "apply_operation E v (Op_Resize n) = Resize E v n"
| "apply_operation E v (Op_PushBack x) = PushBack E v x"
| "apply_operation E v (Op_PushBack_rvalue x) = PushBack_rvalue E v x"
| "apply_operation E v Op_PopBack = PopBack v"
| "apply_operation E v (Op_EmplaceBack a) = iterator_result (EmplaceBack E v a)"
| "apply_operation E v (Op_Emplace pos a) = iterator_result (Emplace E v pos a)"
| "apply_operation E v (Op_Insert pos x) = iterator_result (Insert E v pos x)"
| "apply_operation E v (Op_Insert_rvalue pos x) = iterator_result (Insert_rvalue E v pos x)"
| "apply_operation E v (Op_Erase pos) = iterator_result (Erase E v pos)"
| "apply_operation E v (Op_CopyAssign w) = copy_assign_body E v w"
| "apply_operation E v (Op_MoveAssign w) = (None, fst (Swap v w))"

fun run :: "'a env \<Rightarrow> 'a Vector \<Rightarrow> 'a operation list \<Rightarrow> error option list \<times> 'a Vector" where
  "run E v [] = ([], v)"
| "run E v (opn # ops) =
     (case apply_operation E v opn of
        (r, v') \<Rightarrow> (case run E v' ops of (rs, v'') \<Rightarrow> (r # rs, v'')))"

text \<open>
  The source of an assignment is a well-formed vector, and the byte count of a
  \<^verbatim>\<open>Reserve\<close> does not wrap.
\<close>

fun source_valid :: "'a env \<Rightarrow> 'a operation \<Rightarrow> bool" where
  "source_valid E (Op_CopyAssign w) = valid w"
| "source_valid E (Op_MoveAssign w) = valid w"
| "source_valid E (Op_Reserve n) = fits E n"
| "source_valid E opn = True"

section \<open>Requests to the memory source\<close>

lemma size_t_limit_pos [simp]: "0 < size_t_limit"
  by (simp add: size_t_limit_def)

lemma fits_bytes: "fits E n \<Longrightarrow> mul_size_t n (sizeof_T E) = n * sizeof_T E"
  by (simp add: fits_def mul_size_t_def)

lemma fits_slots: "fits E n \<Longrightarrow> slots E n = n"
  by (simp add: slots_def fits_bytes) (simp add: fits_def)

lemma slots_less:
  assumes "\<not> fits E n" and "n \<noteq> 0"
  shows "slots E n < n"
proof (cases "sizeof_T E = 0")
  case True
  with assms(2) show ?thesis by (simp add: slots_def)
next
  case False
  with assms(1) have ge: "size_t_limit \<le> n * sizeof_T E" by (simp add: fits_def)
  have "(n * sizeof_T E) mod size_t_limit < size_t_limit" by simp
  then have "mul_size_t n (sizeof_T E) < n * sizeof_T E"
    unfolding mul_size_t_def using ge by (rule less_le_trans)
  then have "mul_size_t n (sizeof_T E) div sizeof_T E < n"
    by (rule less_mult_imp_div_less)
  with assms(2) show ?thesis by (simp add: slots_def)
qed

lemma slots_fits: "n \<le> slots E n \<Longrightarrow> n \<noteq> 0 \<Longrightarrow> fits E n"
  using slots_less [of E n] by force

lemma growth_fits:
  assumes "Suc n \<le> slots E (if n = 0 then 1 else mul_size_t n 2)"
  shows "fits E (grown n) \<and> (if n = 0 then 1 else mul_size_t n 2) = grown n"
proof -
  define s where "s = sizeof_T E"
  define M where "M = size_t_limit"
  define nc where "nc = (if n = 0 then 1 else mul_size_t n 2)"
  define bytes where "bytes = mul_size_t nc s"
  have M: "0 < M" by (simp add: M_def)
  from assms have nc0: "nc \<noteq> 0" and k: "Suc n \<le> bytes div s"
    unfolding nc_def bytes_def s_def by (simp_all add: slots_def split: if_splits)
  from k have s: "0 < s" by (cases "s = 0") simp_all
  have bM: "bytes < M" using M by (simp add: bytes_def mul_size_t_def M_def)
  have "Suc n * s \<le> (bytes div s) * s" using k by (rule mult_le_mono1)
  also have "\<dots> \<le> bytes" by simp
  finally have need: "Suc n * s \<le> bytes" .
  with bM have small: "Suc n * s < M" by simp
  have "Suc n * 1 \<le> Suc n * s" using s by (intro mult_le_mono2) simp
  then have "Suc n \<le> Suc n * s" by simp
  with small have nM: "Suc n < M" by simp
  have ble: "bytes \<le> nc * s" by (simp add: bytes_def mul_size_t_def M_def)
  show ?thesis
  proof (cases "n = 0")
    case True
    with small s show ?thesis by (simp add: fits_def grown_def s_def M_def)
  next
    case False
    then have ncm: "nc = (n * 2) mod M" by (simp add: nc_def mul_size_t_def M_def)
    have nc: "nc = n * 2"
    proof (rule ccontr)
      assume neq: "nc \<noteq> n * 2"
      have ge: "M \<le> n * 2"
      proof (rule ccontr)
        assume "\<not> M \<le> n * 2"
        then have "(n * 2) mod M = n * 2" by simp
        with ncm neq show False by simp
      qed
      have "(n * 2) mod M = (n * 2 - M) mod M" using ge by (rule le_mod_geq)
      moreover have "n * 2 - M < M" using nM by simp
      ultimately have "nc = n * 2 - M" using ncm by simp
      with nM False have "nc < n" by simp
      then have "nc * s \<le> n * s" by (intro mult_le_mono1) simp
      with ble have "bytes \<le> n * s" by (rule le_trans)
      with need s show False by simp
    qed
    have fit: "n * 2 * s < M"
    proof (rule ccontr)
      assume "\<not> n * 2 * s < M"
      then have ge: "M \<le> n * 2 * s" by simp
      have lt: "n * s < M" using small by simp
      have "(n * 2 * s) mod M = (n * 2 * s - M) mod M" using ge by (rule le_mod_geq)
      moreover have "n * 2 * s - M < M" using lt M by (simp add: mult.assoc mult.commute [of 2])
      ultimately have "bytes = n * 2 * s - M" using nc by (simp add: bytes_def mul_size_t_def M_def)
      moreover have "0 < n * s" using False s by simp
      moreover have "n * 2 * s = 2 * (n * s)" by simp
      ultimately have "bytes < n * s" using lt by presburger
      with need show False by simp
    qed
    from fit s nc False show ?thesis
      unfolding nc_def by (simp add: fits_def grown_def s_def M_def)
  qed
qed

lemma uninitialized_copy_n_length:
  "uninitialized_copy_n E src first n dst d_first = (r, dst') \<Longrightarrow> length dst' = length dst"
proof (induction n arbitrary: first dst d_first r dst')
  case 0
  then show ?case by simp
next
  case (Suc n)
  show ?case
  proof (cases "read_obj src first")
    case None
    with Suc.prems show ?thesis by simp
  next
    case (Some x)
    obtain r1 d1 where rest:
      "uninitialized_copy_n E src (Suc first) n (dst[d_first := Obj x]) (Suc d_first) = (r1, d1)"
      by (cases "uninitialized_copy_n E src (Suc first) n (dst[d_first := Obj x]) (Suc d_first)")
    from Suc.IH [OF rest] have "length d1 = length dst" by simp
    with Suc.prems Some rest show ?thesis
      by (auto split: if_splits option.splits)
  qed
qed

lemma uninitialized_copy_n_room:
  "fst (uninitialized_copy_n E src first n dst d_first) = None \<Longrightarrow> 0 < n \<Longrightarrow>
   d_first + n \<le> length dst"
proof (induction n arbitrary: first dst d_first)
  case 0
  then show ?case by simp
next
  case (Suc n)
  from Suc.prems(1) obtain x where x: "read_obj src first = Some x" and room: "d_first < length dst"
    and rest: "fst (uninitialized_copy_n E src (Suc first) n (dst[d_first := Obj x]) (Suc d_first)) = None"
    by (auto split: option.splits prod.splits if_splits)
  show ?case
  proof (cases n)
    case 0
    with room show ?thesis by simp
  next
    case (Suc m)
    with Suc.IH [OF rest] show ?thesis by simp
  qed
qed

lemma uninitialized_move_n_length:
  "uninitialized_move_n E src first n dst d_first = (r, src', dst') \<Longrightarrow> length dst' = length dst"
proof (induction n arbitrary: src first dst d_first r src' dst')
  case 0
  then show ?case by simp
next
  case (Suc n)
  show ?case
  proof (cases "read_obj src first")
    case None
    with Suc.prems show ?thesis by simp
  next
    case (Some x)
    obtain r1 s1 d1 where rest:
      "uninitialized_move_n E (src[first := Obj (moved_from E x)]) (Suc first) n
         (dst[d_first := Obj x]) (Suc d_first) = (r1, s1, d1)"
      by (cases "uninitialized_move_n E (src[first := Obj (moved_from E x)]) (Suc first) n
                   (dst[d_first := Obj x]) (Suc d_first)")
    from Suc.IH [OF rest] have "length d1 = length dst" by simp
    with Suc.prems Some rest show ?thesis
      by (auto split: if_splits option.splits)
  qed
qed

lemma uninitialized_move_n_room:
  "fst (uninitialized_move_n E src first n dst d_first) = None \<Longrightarrow> 0 < n \<Longrightarrow>
   d_first + n \<le> length dst"
proof (induction n arbitrary: src first dst d_first)
  case 0
  then show ?case by simp
next
  case (Suc n)
  from Suc.prems(1) obtain x where x: "read_obj src first = Some x" and room: "d_first < length dst"
    and rest: "fst (uninitialized_move_n E (src[first := Obj (moved_from E x)]) (Suc first) n
                      (dst[d_first := Obj x]) (Suc d_first)) = None"
    by (auto split: option.splits prod.splits if_splits)
  show ?case
  proof (cases n)
    case 0
    with room show ?thesis by simp
  next
    case (Suc m)
    with Suc.IH [OF rest] show ?thesis by simp
  qed
qed

lemma value_construct_room:
  "fst (uninitialized_value_construct_n E buf first n) = None \<Longrightarrow> 0 < n \<Longrightarrow>
   first + n \<le> length buf"
proof (induction n arbitrary: buf first)
  case 0
  then show ?case by simp
next
  case (Suc n)
  from Suc.prems(1) obtain d where d: "default_ctor E = Some d" and room: "first < length buf"
    and rest: "fst (uninitialized_value_construct_n E (buf[first := Obj d]) (Suc first) n) = None"
    by (auto split: option.splits prod.splits if_splits)
  show ?case
  proof (cases n)
    case 0
    with room show ?thesis by simp
  next
    case (Suc m)
    with Suc.IH [OF rest] show ?thesis by simp
  qed
qed

lemma MoveItemsInNewMemory_room:
  assumes "MoveItemsInNewMemory E src first dst d_first n = (None, src', dst')"
  shows "length dst' = length dst" and "0 < n \<Longrightarrow> d_first + n \<le> length dst"
proof -
  show "length dst' = length dst"
    using assms
    by (auto simp: MoveItemsInNewMemory_def split: if_splits prod.splits option.splits
          dest: uninitialized_copy_n_length uninitialized_move_n_length)
  show "d_first + n \<le> length dst" if "0 < n"
    using assms that uninitialized_copy_n_room [of E src first n dst d_first]
      uninitialized_move_n_room [of E src first n dst d_first]
    by (auto simp: MoveItemsInNewMemory_def split: if_splits prod.splits option.splits)
qed

lemma RawMemory_sized_Inr:
  "RawMemory_sized E n = Inr d \<Longrightarrow> d = \<lparr>buffer_m = replicate (slots E n) Raw, capacity_m = n\<rparr>"
  by (auto simp: RawMemory_sized_def Allocate_def slots_def Let_def split: if_splits)

lemma RawMemory_sized_eq:
  "fits E n \<Longrightarrow>
   RawMemory_sized E n =
     (if n \<noteq> 0 \<and> \<not> alloc_ok E (n * sizeof_T E) then Inl BadAlloc
      else Inr \<lparr>buffer_m = replicate n Raw, capacity_m = n\<rparr>)"
  by (simp add: RawMemory_sized_def Allocate_def fits_bytes) (simp add: fits_def)

lemma RawMemory_sized_refused:
  "n \<noteq> 0 \<Longrightarrow> \<not> alloc_ok E (mul_size_t n (sizeof_T E)) \<Longrightarrow> RawMemory_sized E n = Inl BadAlloc"
  by (simp add: RawMemory_sized_def Allocate_def)

lemma Reserve_returns:
  assumes "Reserve E v n = (None, v')" and "Capacity v < n"
  shows "size_m v' = size_m v \<and> capacity_m (data_m v') = n \<and>
         length (buffer_m (data_m v')) = slots E n"
proof -
  from assms obtain d src' dst' where d: "RawMemory_sized E n = Inr d"
    and m: "MoveItemsInNewMemory E (GetAddress v) 0 (buffer_m d) 0 (size_m v) = (None, src', dst')"
    and v': "v' = v\<lparr>data_m := fst (RawMemory_Swap (data_m (with_buffer v src')) (d\<lparr>buffer_m := dst'\<rparr>))\<rparr>"
    by (auto simp: Reserve_def split: sum.splits prod.splits option.splits)
  from MoveItemsInNewMemory_room(1) [OF m] RawMemory_sized_Inr [OF d] v'
  show ?thesis by (simp add: RawMemory_Swap_def with_buffer_def)
qed

lemma Resize_wrapped:
  assumes "size_m v < n" and "Capacity v < n" and "\<not> fits E n"
  shows "fst (Resize E v n) \<noteq> None"
proof
  assume "fst (Resize E v n) = None"
  with assms(1,2) obtain v2 b where r: "Reserve E v n = (None, v2)"
    and u: "uninitialized_value_construct_n E (GetAddress v2) (size_m v2) (n - size_m v2) = (None, b)"
    by (auto simp: Resize_def Let_def split: prod.splits option.splits if_splits)
  from Reserve_returns [OF r assms(2)] have s: "size_m v2 = size_m v"
    and l: "length (GetAddress v2) = slots E n"
    by (simp_all add: GetAddress_def)
  from u have "fst (uninitialized_value_construct_n E (GetAddress v2) (size_m v2) (n - size_m v2)) = None"
    by simp
  then have "size_m v2 + (n - size_m v2) \<le> length (GetAddress v2)"
    by (rule value_construct_room) (use assms(1) s in simp)
  with s l assms(1) have "n \<le> slots E n" by simp
  moreover from assms(1) have "n \<noteq> 0" by simp
  ultimately have "fits E n" by (rule slots_fits)
  with assms(3) show False by simp
qed

lemma InsertWithReallocate_returns:
  assumes "InsertWithReallocate E v index args = (None, v')" and "index \<le> size_m v"
  shows "Suc (size_m v) \<le> slots E (if size_m v = 0 then 1 else mul_size_t (size_m v) 2)"
proof -
  let ?nc = "if size_m v = 0 then 1 else mul_size_t (size_m v) 2"
  from assms(1) obtain d x src1 dst1 src2 dst2 where d: "RawMemory_sized E ?nc = Inr d"
    and idx: "index < length (buffer_m d)"
    and m1: "MoveItemsInNewMemory E (GetAddress v) 0 ((buffer_m d)[index := Obj x]) 0 index = (None, src1, dst1)"
    and m2: "MoveItemsInNewMemory E src1 index dst1 (index + 1) (size_m v - index) = (None, src2, dst2)"
    unfolding InsertWithReallocate_def
    by (auto split: sum.splits prod.splits option.splits if_splits)
  have len: "length (buffer_m d) = slots E ?nc"
    using RawMemory_sized_Inr [OF d] by simp
  have l1: "length dst1 = length (buffer_m d)"
    using MoveItemsInNewMemory_room(1) [OF m1] by simp
  show ?thesis
  proof (cases "index = size_m v")
    case True
    with idx len show ?thesis by simp
  next
    case False
    with assms(2) have "0 < size_m v - index" by simp
    from MoveItemsInNewMemory_room(2) [OF m2 this] l1 len assms(2) show ?thesis by simp
  qed
qed

lemma InsertWithReallocate_throws:
  "InsertWithReallocate E v index args = (Some e, v') \<Longrightarrow>
   size_m v' = size_m v \<and> Capacity v' = Capacity v"
  unfolding InsertWithReallocate_def
  by (auto simp: with_buffer_def Capacity_def RawMemory_Capacity_def
        split: sum.splits prod.splits option.splits if_splits)

lemma Vector_copy_returns:
  assumes "Vector_copy E w = Inr t" and "size_m w \<noteq> 0"
  shows "fits E (size_m w)"
proof -
  from assms(1) obtain d b where d: "RawMemory_sized E (size_m w) = Inr d"
    and u: "uninitialized_copy_n E (GetAddress w) 0 (size_m w) (buffer_m d) 0 = (None, b)"
    by (auto simp: Vector_copy_def split: sum.splits prod.splits option.splits)
  from u have "fst (uninitialized_copy_n E (GetAddress w) 0 (size_m w) (buffer_m d) 0) = None" by simp
  then have "0 + size_m w \<le> length (buffer_m d)"
    by (rule uninitialized_copy_n_room) (use assms(2) in simp)
  with RawMemory_sized_Inr [OF d] have "size_m w \<le> slots E (size_m w)" by simp
  then show ?thesis using assms(2) by (rule slots_fits)
qed

lemma Vector_sized_returns:
  assumes "Vector_sized E n = Inr t" and "n \<noteq> 0"
  shows "fits E n"
proof -
  from assms(1) obtain d b where d: "RawMemory_sized E n = Inr d"
    and u: "uninitialized_value_construct_n E (buffer_m d) 0 n = (None, b)"
    by (auto simp: Vector_sized_def split: sum.splits prod.splits option.splits)
  from u have "fst (uninitialized_value_construct_n E (buffer_m d) 0 n) = None" by simp
  then have "0 + n \<le> length (buffer_m d)"
    by (rule value_construct_room) (use assms(2) in simp)
  with RawMemory_sized_Inr [OF d] have "n \<le> slots E n" by simp
  then show ?thesis using assms(2) by (rule slots_fits)
qed

section \<open>The algorithms on blocks\<close>

lemma read_obj_at [simp]: "read_obj (pre @ Obj x # post) (length pre) = Some x"
  by (simp add: read_obj_def)

lemma read_obj_raw [simp]: "read_obj (pre @ Raw # post) (length pre) = None"
  by (simp add: read_obj_def)

lemma read_obj_end [simp]: "read_obj buf (length buf) = None"
  by (simp add: read_obj_def)

lemma destroy_n_at:
  "first = length pre \<Longrightarrow> n = length ys \<Longrightarrow>
   destroy_n (pre @ ys @ post) first n = pre @ replicate n Raw @ post"
proof (induction ys arbitrary: pre first n)
  case Nil
  then show ?case by simp
next
  case (Cons y ys)
  have "destroy_n ((pre @ [Raw]) @ ys @ post) (length (pre @ [Raw])) (length ys)
        = (pre @ [Raw]) @ replicate (length ys) Raw @ post"
    by (rule Cons.IH) simp_all
  with Cons.prems show ?case by simp
qed

lemma value_construct_at:
  "first = length pre \<Longrightarrow>
   uninitialized_value_construct_n E (pre @ replicate n Raw @ post) first n =
     (case default_ctor E of
        None \<Rightarrow> (if n = 0 then None else Some ElemError, pre @ replicate n Raw @ post)
      | Some d \<Rightarrow> (None, pre @ replicate n (Obj d) @ post))"
proof (induction n arbitrary: pre first)
  case 0
  then show ?case by (simp split: option.splits)
next
  case (Suc n)
  show ?case
  proof (cases "default_ctor E")
    case None
    with Suc.prems show ?thesis by simp
  next
    case (Some d)
    have "uninitialized_value_construct_n E ((pre @ [Obj d]) @ replicate n Raw @ post)
            (length (pre @ [Obj d])) n = (None, (pre @ [Obj d]) @ replicate n (Obj d) @ post)"
      using Suc.IH [of "length (pre @ [Obj d])" "pre @ [Obj d]"] Some by simp
    with Suc.prems Some show ?thesis by simp
  qed
qed

lemma uninitialized_copy_n_at:
  "first = length sp \<Longrightarrow> d_first = length dp \<Longrightarrow> n = length xs \<Longrightarrow>
   uninitialized_copy_n E (sp @ map Obj xs @ ss) first n (dp @ replicate n Raw @ ds) d_first =
     (if \<exists>x\<in>set xs. copy_throws E x
      then (Some ElemError, dp @ replicate n Raw @ ds)
      else (None, dp @ map Obj xs @ ds))"
proof (induction xs arbitrary: sp dp first d_first n)
  case Nil
  then show ?case by simp
next
  case (Cons x xs)
  have step: "uninitialized_copy_n E ((sp @ [Obj x]) @ map Obj xs @ ss) (length (sp @ [Obj x]))
          (length xs) ((dp @ [Obj x]) @ replicate (length xs) Raw @ ds) (length (dp @ [Obj x])) =
        (if \<exists>x\<in>set xs. copy_throws E x
         then (Some ElemError, (dp @ [Obj x]) @ replicate (length xs) Raw @ ds)
         else (None, (dp @ [Obj x]) @ map Obj xs @ ds))"
    by (rule Cons.IH) simp_all
  show ?case
  proof (cases "copy_throws E x")
    case True
    with Cons.prems show ?thesis by simp
  next
    case False
    with Cons.prems step show ?thesis by (simp add: list_update_append)
  qed
qed

lemma uninitialized_move_n_at:
  "first = length sp \<Longrightarrow> d_first = length dp \<Longrightarrow> n = length xs \<Longrightarrow>
   uninitialized_move_n E (sp @ map Obj xs @ ss) first n (dp @ replicate n Raw @ ds) d_first =
     (if \<exists>x\<in>set xs. move_throws E x
      then (Some ElemError, sp @ map Obj (moved_prefix E xs) @ ss, dp @ replicate n Raw @ ds)
      else (None, sp @ map Obj (map (moved_from E) xs) @ ss, dp @ map Obj xs @ ds))"
proof (induction xs arbitrary: sp dp first d_first n)
  case Nil
  then show ?case by simp
next
  case (Cons x xs)
  have step: "uninitialized_move_n E ((sp @ [Obj (moved_from E x)]) @ map Obj xs @ ss)
          (length (sp @ [Obj (moved_from E x)])) (length xs)
          ((dp @ [Obj x]) @ replicate (length xs) Raw @ ds) (length (dp @ [Obj x])) =
        (if \<exists>x\<in>set xs. move_throws E x
         then (Some ElemError, (sp @ [Obj (moved_from E x)]) @ map Obj (moved_prefix E xs) @ ss,
               (dp @ [Obj x]) @ replicate (length xs) Raw @ ds)
         else (None, (sp @ [Obj (moved_from E x)]) @ map Obj (map (moved_from E) xs) @ ss,
               (dp @ [Obj x]) @ map Obj xs @ ds))"
    by (rule Cons.IH) simp_all
  show ?case
  proof (cases "move_throws E x")
    case True
    with Cons.prems show ?thesis by simp
  next
    case False
    with Cons.prems step show ?thesis by (simp add: list_update_append)
  qed
qed

lemma length_assigned_prefix [simp]: "length (assigned_prefix E xs ys) = length ys"
  by (induction E xs ys rule: assigned_prefix.induct) simp_all

lemma assigned_prefix_all:
  "length xs = length ys \<Longrightarrow> \<forall>x\<in>set xs. \<not> copy_assign_throws E x \<Longrightarrow> assigned_prefix E xs ys = xs"
  by (induction E xs ys rule: assigned_prefix.induct) simp_all

lemma copy_n_at:
  "first = length sp \<Longrightarrow> d_first = length dp \<Longrightarrow> n = length xs \<Longrightarrow> length ys = length xs \<Longrightarrow>
   copy_n E (sp @ map Obj xs @ ss) first n (dp @ map Obj ys @ ds) d_first =
     (if \<exists>x\<in>set xs. copy_assign_throws E x then Some ElemError else None,
      dp @ map Obj (assigned_prefix E xs ys) @ ds)"
proof (induction xs ys arbitrary: sp dp first d_first n rule: list_induct2')
  case 1
  then show ?case by simp
next
  case (2 x xs)
  then show ?case by simp
next
  case (3 y ys)
  then show ?case by simp
next
  case (4 x xs y ys)
  have step: "copy_n E ((sp @ [Obj x]) @ map Obj xs @ ss) (length (sp @ [Obj x])) (length xs)
                ((dp @ [Obj x]) @ map Obj ys @ ds) (length (dp @ [Obj x])) =
              (if \<exists>x\<in>set xs. copy_assign_throws E x then Some ElemError else None,
               (dp @ [Obj x]) @ map Obj (assigned_prefix E xs ys) @ ds)"
    using "4.prems" by (intro "4.IH") simp_all
  show ?case
  proof (cases "copy_assign_throws E x")
    case True
    with "4.prems" show ?thesis by simp
  next
    case False
    with "4.prems" step show ?thesis by (simp add: list_update_append)
  qed
qed

lemma length_shifted [simp]: "length (shifted E y xs) = Suc (length xs)"
  by (induction xs arbitrary: y) simp_all

lemma shifted_all:
  "\<forall>x\<in>set xs. \<not> move_assign_throws E x \<Longrightarrow>
   shifted E y xs = xs @ [if xs = [] then y else moved_from E (last xs)]"
  by (induction xs arbitrary: y) simp_all

lemma read_obj_at_Suc [simp]: "read_obj (pre @ a # Obj x # post) (Suc (length pre)) = Some x"
  by (simp add: read_obj_def nth_append)

lemma move_n_at:
  "first = Suc (length pre) \<Longrightarrow> d_first = length pre \<Longrightarrow> n = length xs \<Longrightarrow>
   move_n E (pre @ Obj y # map Obj xs @ post) first n d_first =
     (if \<exists>x\<in>set xs. move_assign_throws E x then Some ElemError else None,
      pre @ map Obj (shifted E y xs) @ post)"
proof (induction xs arbitrary: pre y first d_first n)
  case Nil
  then show ?case by simp
next
  case (Cons x xs)
  have step: "move_n E ((pre @ [Obj x]) @ Obj (moved_from E x) # map Obj xs @ post)
                (Suc (length (pre @ [Obj x]))) (length xs) (length (pre @ [Obj x])) =
              (if \<exists>x\<in>set xs. move_assign_throws E x then Some ElemError else None,
               (pre @ [Obj x]) @ map Obj (shifted E (moved_from E x) xs) @ post)"
    by (rule Cons.IH) simp_all
  show ?case
  proof (cases "move_assign_throws E x")
    case True
    with Cons.prems show ?thesis by simp
  next
    case False
    have upd: "(pre @ Obj y # Obj x # map Obj xs @ post)
                 [length pre := Obj x, Suc (length pre) := Obj (moved_from E x)]
               = pre @ Obj x # Obj (moved_from E x) # map Obj xs @ post"
      by (simp add: list_update_append)
    from False Cons.prems step upd show ?thesis by simp
  qed
qed

lemma move_backward_n_at:
  "lst = length pre + length xs \<Longrightarrow> d_last = Suc lst \<Longrightarrow> n = length xs \<Longrightarrow>
   move_backward_n E (pre @ map Obj xs @ Obj y # post) lst n d_last =
     (if \<exists>x\<in>set xs. move_assign_throws E x then Some ElemError else None,
      pre @ map Obj (rev (shifted E y (rev xs))) @ post)"
proof (induction xs arbitrary: y post lst d_last n rule: rev_induct)
  case Nil
  then show ?case by simp
next
  case (snoc x xs)
  have rd1: "read_obj (pre @ map Obj xs @ Obj x # Obj y # post) (length pre + length xs) = Some x"
    using read_obj_at [of "pre @ map Obj xs" x "Obj y # post"] by simp
  have rd2: "read_obj (pre @ map Obj xs @ Obj x # Obj y # post) (Suc (length pre + length xs)) = Some y"
    using read_obj_at_Suc [of "pre @ map Obj xs" "Obj x" y post] by simp
  have upd: "(pre @ map Obj xs @ Obj x # Obj y # post)
               [Suc (length pre + length xs) := Obj x, length pre + length xs := Obj (moved_from E x)]
             = pre @ map Obj xs @ Obj (moved_from E x) # Obj x # post"
    using list_update_length [of "pre @ map Obj xs" "Obj x" "Obj x # post" "Obj (moved_from E x)"]
      list_update_length [of "pre @ map Obj xs @ [Obj x]" "Obj y" "post" "Obj x"]
    by simp
  have step: "move_backward_n E (pre @ map Obj xs @ Obj (moved_from E x) # (Obj x # post))
                (length pre + length xs) (length xs) (Suc (length pre + length xs)) =
              (if \<exists>x\<in>set xs. move_assign_throws E x then Some ElemError else None,
               pre @ map Obj (rev (shifted E (moved_from E x) (rev xs))) @ (Obj x # post))"
    by (rule snoc.IH) simp_all
  show ?case
  proof (cases "move_assign_throws E x")
    case True
    with snoc.prems rd1 rd2 show ?thesis by simp
  next
    case False
    with snoc.prems rd1 rd2 upd step show ?thesis by simp
  qed
qed

lemma length_moved_prefix [simp]: "length (moved_prefix E xs) = length xs"
  by (induction xs) simp_all

lemma length_left_behind [simp]: "length (left_behind E xs) = length xs"
  by (simp add: left_behind_def)

lemma objs_map_Obj [simp]: "objs (map Obj xs) = xs"
  by (induction xs) simp_all

lemma map_Obj_objs: "list_all is_obj ss \<Longrightarrow> map Obj (objs ss) = ss"
  by (induction ss rule: objs.induct) (simp_all add: is_obj_def)

lemma length_objs: "list_all is_obj ss \<Longrightarrow> length (objs ss) = length ss"
  by (induction ss rule: objs.induct) (simp_all add: is_obj_def)

lemma all_Raw_replicate: "list_all (\<lambda>s. s = Raw) ss \<Longrightarrow> ss = replicate (length ss) Raw"
  by (induction ss) simp_all

lemma size_vec [simp]: "size_m (vec xs c) = length xs"
  by (simp add: vec_def)

lemma Capacity_vec [simp]: "Capacity (vec xs c) = c"
  by (simp add: vec_def Capacity_def RawMemory_Capacity_def)

lemma GetAddress_vec [simp]: "GetAddress (vec xs c) = map Obj xs @ replicate (c - length xs) Raw"
  by (simp add: vec_def GetAddress_def)

lemma elems_vec [simp]: "elems (vec xs c) = xs"
  by (simp add: vec_def elems_def)

lemma valid_vec: "length xs \<le> c \<Longrightarrow> valid (vec xs c)"
  by (simp add: vec_def valid_def list_all_iff is_obj_def image_iff Ball_def) auto

lemma valid_is_vec:
  assumes "valid v"
  shows "v = vec (elems v) (Capacity v)" and "length (elems v) = size_m v" and "size_m v \<le> Capacity v"
proof -
  let ?b = "buffer_m (data_m v)"
  from assms have cap: "capacity_m (data_m v) = length ?b" and le: "size_m v \<le> length ?b"
    and live: "list_all is_obj (take (size_m v) ?b)"
    and raw: "list_all (\<lambda>s. s = Raw) (drop (size_m v) ?b)"
    by (simp_all add: valid_def)
  from live le show len: "length (elems v) = size_m v"
    by (simp add: elems_def length_objs)
  from cap le show "size_m v \<le> Capacity v"
    by (simp add: Capacity_def RawMemory_Capacity_def)
  have "?b = take (size_m v) ?b @ drop (size_m v) ?b" by simp
  also have "take (size_m v) ?b = map Obj (elems v)"
    using live by (simp add: elems_def map_Obj_objs)
  also have "drop (size_m v) ?b = replicate (length ?b - size_m v) Raw"
    using all_Raw_replicate [OF raw] by simp
  finally have "?b = map Obj (elems v) @ replicate (Capacity v - length (elems v)) Raw"
    using cap len by (simp add: Capacity_def RawMemory_Capacity_def)
  with cap len show "v = vec (elems v) (Capacity v)"
    by (simp add: vec_def Capacity_def RawMemory_Capacity_def)
qed

lemma with_buffer_vec:
  "b = map Obj ys @ replicate (c - length ys) Raw \<Longrightarrow> length ys = length xs \<Longrightarrow>
   with_buffer (vec xs c) b = vec ys c"
  by (simp add: with_buffer_def vec_def)

lemma MoveItemsInNewMemory_at:
  assumes "first = length sp" and "d_first = length dp" and "n = length xs"
  shows "MoveItemsInNewMemory E (sp @ map Obj xs @ ss) first (dp @ replicate n Raw @ ds) d_first n =
     (if relocation_fails E xs
      then (Some ElemError, sp @ map Obj (left_behind E xs) @ ss, dp @ replicate n Raw @ ds)
      else (None, sp @ replicate n Raw @ ss, dp @ map Obj xs @ ds))"
proof (cases "relocates_by_move E")
  case True
  have d: "destroy_n (sp @ map Obj (map (moved_from E) xs) @ ss) first n = sp @ replicate n Raw @ ss"
    using assms by (intro destroy_n_at) simp_all
  from True show ?thesis
    using uninitialized_move_n_at [OF assms, of E ss ds] d
    by (simp add: MoveItemsInNewMemory_def relocates_by_move_def relocation_fails_def left_behind_def)
next
  case False
  have d: "destroy_n (sp @ map Obj xs @ ss) first n = sp @ replicate n Raw @ ss"
    using assms by (intro destroy_n_at) simp_all
  from False show ?thesis
    using uninitialized_copy_n_at [OF assms, of E ss ds] d
    by (simp add: MoveItemsInNewMemory_def relocates_by_move_def relocation_fails_def left_behind_def)
qed

lemma Reserve_vec:
  assumes "length xs \<le> c" and "c < n \<Longrightarrow> fits E n"
  shows "Reserve E (vec xs c) n =
     (if n \<le> c then (None, vec xs c)
      else if \<not> alloc_ok E (n * sizeof_T E) then (Some BadAlloc, vec xs c)
      else if relocation_fails E xs then (Some ElemError, vec (left_behind E xs) c)
      else (None, vec xs n))"
proof (cases "n \<le> c")
  case True
  then show ?thesis by (simp add: Reserve_def)
next
  case False
  with assms have split: "replicate n Raw = replicate (length xs) (Raw :: 'a slot) @ replicate (n - length xs) Raw"
    by (simp add: replicate_add [symmetric])
  have m: "MoveItemsInNewMemory E ([] @ map Obj xs @ replicate (c - length xs) Raw) 0
             ([] @ replicate (length xs) Raw @ replicate (n - length xs) Raw) 0 (length xs) =
     (if relocation_fails E xs
      then (Some ElemError, [] @ map Obj (left_behind E xs) @ replicate (c - length xs) Raw,
            [] @ replicate (length xs) Raw @ replicate (n - length xs) Raw)
      else (None, [] @ replicate (length xs) Raw @ replicate (c - length xs) Raw,
            [] @ map Obj xs @ replicate (n - length xs) Raw))"
    by (rule MoveItemsInNewMemory_at) simp_all
  from False assms(2) have f: "fits E n" by simp
  from False m show ?thesis
    by (simp add: Reserve_def RawMemory_sized_eq [OF f] split with_buffer_vec RawMemory_Swap_def)
       (simp add: vec_def with_buffer_def)
qed

section \<open>The operations on well-formed vectors\<close>

lemma grown_gt: "Suc n \<le> grown n"
  by (cases n) (simp_all add: grown_def)

lemma grown_nonzero [simp]: "grown n \<noteq> 0"
  using grown_gt [of n] by simp

lemma InsertWithReallocate_grown:
  "fits E (grown (size_m v)) \<Longrightarrow>
   InsertWithReallocate E v index args =
     (case RawMemory_sized E (grown (size_m v)) of
        Inl e \<Rightarrow> (Some e, v)
      | Inr new_data \<Rightarrow>
         (case args of
            None \<Rightarrow> (Some ElemError, v)
          | Some x \<Rightarrow>
             (if length (buffer_m new_data) \<le> index then (Some PreconditionViolation, v)
              else (case MoveItemsInNewMemory E (GetAddress v) 0
                           ((buffer_m new_data)[index := Obj x]) 0 index of
                      (Some e, src1, dst1) \<Rightarrow> (Some e, with_buffer v src1)
                    | (None, src1, dst1) \<Rightarrow>
                       (case MoveItemsInNewMemory E src1 index dst1 (index + 1) (size_m v - index) of
                          (Some e, src2, dst2) \<Rightarrow> (Some e, with_buffer v src2)
                        | (None, src2, dst2) \<Rightarrow>
                            (None, v\<lparr>data_m := fst (RawMemory_Swap (data_m (with_buffer v src2))
                                                      (new_data\<lparr>buffer_m := dst2\<rparr>))\<rparr>))))))"
proof -
  assume f: "fits E (grown (size_m v))"
  have "size_m v * 2 < size_t_limit" if "size_m v \<noteq> 0"
  proof -
    from f that have s: "0 < sizeof_T E" and lt: "size_m v * 2 * sizeof_T E < size_t_limit"
      by (simp_all add: fits_def grown_def)
    from s have "1 \<le> sizeof_T E" by simp
    then have "size_m v * 2 * 1 \<le> size_m v * 2 * sizeof_T E" by (rule mult_le_mono2)
    then have "size_m v * 2 \<le> size_m v * 2 * sizeof_T E" by (simp only: mult_1_right)
    then show ?thesis using lt by (rule le_less_trans)
  qed
  then have "(if size_m v = 0 then 1 else mul_size_t (size_m v) 2) = grown (size_m v)"
    by (simp add: grown_def mul_size_t_def)
  then show ?thesis by (simp add: InsertWithReallocate_def)
qed

lemma InsertWithReallocate_vec:
  assumes "length (ys @ zs) \<le> c" and "fits E (grown (length (ys @ zs)))"
  shows "InsertWithReallocate E (vec (ys @ zs) c) (length ys) args =
     (if \<not> alloc_ok E (grown (length (ys @ zs)) * sizeof_T E) then (Some BadAlloc, vec (ys @ zs) c)
      else (case args of
              None \<Rightarrow> (Some ElemError, vec (ys @ zs) c)
            | Some x \<Rightarrow>
               (if relocation_fails E ys then (Some ElemError, vec (left_behind E ys @ zs) c)
                else if relocation_fails E zs
                then (Some ElemError,
                      with_buffer (vec (ys @ zs) c)
                        (replicate (length ys) Raw @ map Obj (left_behind E zs)
                           @ replicate (c - length (ys @ zs)) Raw))
                else (None,
                      \<lparr>data_m = \<lparr>buffer_m = map Obj (ys @ x # zs)
                                     @ replicate (grown (length (ys @ zs)) - Suc (length (ys @ zs))) Raw,
                                  capacity_m = grown (length (ys @ zs))\<rparr>,
                       size_m = length (ys @ zs)\<rparr>))))"
proof -
  let ?n = "length ys + length zs"
  let ?g = "grown ?n"
  let ?ss = "replicate (c - ?n) (Raw :: 'a slot)"
  let ?rest = "replicate (?g - Suc ?n) (Raw :: 'a slot)"
  have g: "Suc ?n \<le> ?g"
    by (rule grown_gt)
  have f: "fits E ?g" and fv: "fits E (grown (size_m (vec (ys @ zs) c)))"
    using assms(2) by simp_all
  note iwr = InsertWithReallocate_grown [OF fv]
  note sized = RawMemory_sized_eq [OF f]
  have new: "replicate ?g (Raw :: 'a slot) = replicate (length ys) Raw @ Raw # replicate (length zs) Raw @ ?rest"
  proof -
    have "?g = length ys + Suc (length zs + (?g - Suc ?n))" using g by simp
    then have "replicate ?g (Raw :: 'a slot) = replicate (length ys + Suc (length zs + (?g - Suc ?n))) Raw"
      by simp
    then show ?thesis by (simp only: replicate_add replicate_Suc)
  qed
  have placed: "(replicate ?g (Raw :: 'a slot))[length ys := Obj x]
      = replicate (length ys) Raw @ Obj x # replicate (length zs) Raw @ ?rest" for x
    by (subst new) (simp add: list_update_append)
  have m1: "MoveItemsInNewMemory E (map Obj ys @ map Obj zs @ ?ss) 0
              (replicate (length ys) Raw @ Obj x # replicate (length zs) Raw @ ?rest) 0 (length ys) =
     (if relocation_fails E ys
      then (Some ElemError, map Obj (left_behind E ys) @ map Obj zs @ ?ss,
            replicate (length ys) Raw @ Obj x # replicate (length zs) Raw @ ?rest)
      else (None, replicate (length ys) Raw @ map Obj zs @ ?ss,
            map Obj ys @ Obj x # replicate (length zs) Raw @ ?rest))" for x
    using MoveItemsInNewMemory_at [of 0 "[]" 0 "[]" "length ys" ys E "map Obj zs @ ?ss"
            "Obj x # replicate (length zs) Raw @ ?rest"]
    by simp
  have m2: "MoveItemsInNewMemory E (replicate (length ys) Raw @ map Obj zs @ ?ss) (length ys)
              (map Obj ys @ Obj x # replicate (length zs) Raw @ ?rest) (Suc (length ys)) (length zs) =
     (if relocation_fails E zs
      then (Some ElemError, replicate (length ys) Raw @ map Obj (left_behind E zs) @ ?ss,
            map Obj ys @ Obj x # replicate (length zs) Raw @ ?rest)
      else (None, replicate (length ys) Raw @ replicate (length zs) Raw @ ?ss,
            map Obj ys @ Obj x # map Obj zs @ ?rest))" for x
    using MoveItemsInNewMemory_at [of "length ys" "replicate (length ys) Raw" "Suc (length ys)"
            "map Obj ys @ [Obj x]" "length zs" zs E ?ss ?rest]
    by simp
  show ?thesis
  proof (cases "alloc_ok E (?g * sizeof_T E)")
    case False
    then show ?thesis by (simp add: iwr sized)
  next
    case True
    show ?thesis
    proof (cases args)
      case None
      with True show ?thesis by (simp add: iwr sized)
    next
      case (Some x)
      have idx: "\<not> ?g \<le> length ys" using g by simp
      have "InsertWithReallocate E (vec (ys @ zs) c) (length ys) (Some x) =
         (if relocation_fails E ys
          then (Some ElemError, with_buffer (vec (ys @ zs) c) (map Obj (left_behind E ys) @ map Obj zs @ ?ss))
          else if relocation_fails E zs
          then (Some ElemError, with_buffer (vec (ys @ zs) c)
                   (replicate (length ys) Raw @ map Obj (left_behind E zs) @ ?ss))
          else (None, (vec (ys @ zs) c)\<lparr>data_m := \<lparr>buffer_m = map Obj ys @ Obj x # map Obj zs @ ?rest,
                                                   capacity_m = ?g\<rparr>\<rparr>))"
        using True idx
        by (simp add: iwr sized placed m1 m2 RawMemory_Swap_def)
      also have "with_buffer (vec (ys @ zs) c) (map Obj (left_behind E ys) @ map Obj zs @ ?ss)
            = vec (left_behind E ys @ zs) c"
        by (rule with_buffer_vec) simp_all
      finally show ?thesis using True Some by (simp add: vec_def)
    qed
  qed
qed

lemma InsertInPlace_end:
  assumes "length ys < c"
  shows "InsertInPlace E (vec ys c) (length ys) args =
     (case args of
        None \<Rightarrow> (Some ElemError, vec ys c)
      | Some x \<Rightarrow> (None, with_buffer (vec ys c) (map Obj (ys @ [x]) @ replicate (c - Suc (length ys)) Raw)))"
proof -
  from assms obtain k where c: "c = Suc (length ys + k)"
    using less_imp_Suc_add by blast
  have "(map Obj ys @ replicate (Suc k) Raw)[length ys := Obj x] = map Obj ys @ Obj x # replicate k Raw" for x
    by (simp add: list_update_append)
  then show ?thesis
    by (simp add: InsertInPlace_def c split: option.splits)
qed

lemma InsertInPlace_middle:
  assumes c: "c = Suc (Suc (length ys + length ws + k))"
  shows "InsertInPlace E (vec (ys @ ws @ [l]) c) (length ys) (Some x) =
     (if move_throws E l then (Some ElemError, vec (ys @ ws @ [l]) c)
      else if \<exists>y\<in>set ws. move_assign_throws E y
      then (Some ElemError,
            with_buffer (vec (ys @ ws @ [l]) c)
              (map Obj (ys @ rev (shifted E (moved_from E l) (rev ws)) @ [l]) @ replicate k Raw))
      else if move_assign_throws E x
      then (Some ElemError,
            with_buffer (vec (ys @ ws @ [l]) c)
              (map Obj (ys @ (if ws = [] then moved_from E l else moved_from E (hd ws)) # ws @ [l])
                 @ replicate k Raw))
      else (None, with_buffer (vec (ys @ ws @ [l]) c) (map Obj (ys @ x # ws @ [l]) @ replicate k Raw)))"
proof -
  let ?n = "length ys + length ws"
  let ?buf = "map Obj ys @ map Obj ws @ Obj l # Raw # replicate k Raw"
  let ?b1 = "map Obj ys @ map Obj ws @ Obj (moved_from E l) # Obj l # replicate k Raw"
  let ?r = "if ws = [] then moved_from E l else moved_from E (hd ws)"
  have buf: "GetAddress (vec (ys @ ws @ [l]) c) = ?buf"
    by (simp add: c)
  have rd: "read_obj ?buf ?n = Some l"
    using read_obj_at [of "map Obj ys @ map Obj ws" l "Raw # replicate k Raw"] by simp
  have upd: "?buf[?n := Obj (moved_from E l), Suc ?n := Obj l] = ?b1"
    using list_update_length [of "map Obj ys @ map Obj ws" "Obj l" "Raw # replicate k Raw" "Obj (moved_from E l)"]
      list_update_length [of "map Obj ys @ map Obj ws @ [Obj (moved_from E l)]" Raw "replicate k Raw" "Obj l"]
    by simp
  have mb: "move_backward_n E ?b1 ?n (length ws) (Suc ?n) =
     (if \<exists>x\<in>set ws. move_assign_throws E x then Some ElemError else None,
      map Obj ys @ map Obj (rev (shifted E (moved_from E l) (rev ws))) @ Obj l # replicate k Raw)"
    using move_backward_n_at [of ?n "map Obj ys" ws "Suc ?n" "length ws" E "moved_from E l"
            "Obj l # replicate k Raw"]
    by simp
  have sh: "rev (shifted E (moved_from E l) (rev ws)) = ?r # ws"
    if "\<not> (\<exists>x\<in>set ws. move_assign_throws E x)"
    using that shifted_all [of "rev ws" E "moved_from E l"] by (simp add: last_rev)
  have rd2: "read_obj (map Obj ys @ Obj ?r # map Obj ws @ Obj l # replicate k Raw) (length ys) = Some ?r"
    using read_obj_at [of "map Obj ys" ?r "map Obj ws @ Obj l # replicate k Raw"] by simp
  have upd2: "(map Obj ys @ Obj ?r # map Obj ws @ Obj l # replicate k Raw)[length ys := Obj x]
              = map Obj ys @ Obj x # map Obj ws @ Obj l # replicate k Raw"
    using list_update_length [of "map Obj ys" "Obj ?r" "map Obj ws @ Obj l # replicate k Raw" "Obj x"]
    by simp
  have ne: "length ys \<noteq> size_m (vec (ys @ ws @ [l]) c)" by simp
  show ?thesis
  proof (cases "\<exists>x\<in>set ws. move_assign_throws E x")
    case True
    then show ?thesis
      using rd upd mb
      by (simp add: InsertInPlace_def buf begin_it_def end_it_def move_backward_def del: GetAddress_vec)
  next
    case False
    note sh' = sh [OF False]
    from False show ?thesis
      using rd upd mb rd2 upd2 sh'
      by (simp add: InsertInPlace_def buf begin_it_def end_it_def move_backward_def del: GetAddress_vec)
  qed
qed

lemma grown_max: "grown n = max 1 (2 * n)"
  by (simp add: grown_def)

lemma Emplace_full:
  assumes "length xs = c" and "i \<le> length xs" and "fits E (grown c)"
  shows "Emplace E (vec xs c) i args =
     (if \<not> alloc_ok E (grown c * sizeof_T E) then (Inl BadAlloc, vec xs c)
      else (case args of
              None \<Rightarrow> (Inl ElemError, vec xs c)
            | Some x \<Rightarrow>
               (if relocation_fails E (take i xs)
                then (Inl ElemError, vec (left_behind E (take i xs) @ drop i xs) c)
                else if relocation_fails E (drop i xs)
                then (Inl ElemError,
                      with_buffer (vec xs c) (replicate i Raw @ map Obj (left_behind E (drop i xs))))
                else (Inr i, vec (take i xs @ x # drop i xs) (grown c)))))"
proof -
  have len: "length (take i xs) = i" using assms by simp
  have iwr: "InsertWithReallocate E (vec xs c) i args = 
     (if \<not> alloc_ok E (grown c * sizeof_T E) then (Some BadAlloc, vec xs c)
      else (case args of
              None \<Rightarrow> (Some ElemError, vec xs c)
            | Some x \<Rightarrow>
               (if relocation_fails E (take i xs)
                then (Some ElemError, vec (left_behind E (take i xs) @ drop i xs) c)
                else if relocation_fails E (drop i xs)
                then (Some ElemError,
                      with_buffer (vec xs c) (replicate i Raw @ map Obj (left_behind E (drop i xs))))
                else (None,
                      \<lparr>data_m = \<lparr>buffer_m = map Obj (take i xs @ x # drop i xs)
                                     @ replicate (grown c - Suc c) Raw,
                                  capacity_m = grown c\<rparr>,
                       size_m = c\<rparr>))))"
    using InsertWithReallocate_vec [of "take i xs" "drop i xs" c E args] assms
    by (simp add: min_absorb2 split: option.splits)
  have fin: "\<lparr>data_m = \<lparr>buffer_m = map Obj (take i xs @ x # drop i xs) @ replicate (grown c - Suc c) Raw,
                       capacity_m = grown c\<rparr>, size_m = c\<rparr>\<lparr>size_m := c + 1\<rparr>
             = vec (take i xs @ x # drop i xs) (grown c)" for x
    using assms by (simp add: vec_def min_absorb2)
  show ?thesis
    using assms
    by (simp add: Emplace_def begin_it_def end_it_def iwr split: option.splits)
       (simp add: vec_def min_absorb2)
qed

lemma size_with_buffer [simp]: "size_m (with_buffer v b) = size_m v"
  by (simp add: with_buffer_def)

lemma Capacity_with_buffer [simp]: "Capacity (with_buffer v b) = Capacity v"
  by (simp add: with_buffer_def Capacity_def RawMemory_Capacity_def)

lemma GetAddress_with_buffer [simp]: "GetAddress (with_buffer v b) = b"
  by (simp add: with_buffer_def GetAddress_def)

lemma InsertInPlace_vec:
  assumes "length xs < c" and "i \<le> length xs"
  shows "\<exists>us s. length us = length xs \<and>
     InsertInPlace E (vec xs c) i (Some x) =
       (if inplace_fails E (drop i xs) x
        then (Some ElemError,
              with_buffer (vec xs c) (map Obj us @ s # replicate (c - Suc (length xs)) Raw))
        else (None,
              with_buffer (vec xs c)
                (map Obj (take i xs @ x # drop i xs) @ replicate (c - Suc (length xs)) Raw)))"
proof (cases "drop i xs" rule: rev_cases)
  case Nil
  with assms have i: "i = length xs" by simp
  from Nil have "\<not> inplace_fails E (drop i xs) x" by (simp add: inplace_fails_def)
  moreover have "InsertInPlace E (vec xs c) i (Some x) =
     (None, with_buffer (vec xs c) (map Obj (take i xs @ x # drop i xs) @ replicate (c - Suc (length xs)) Raw))"
    using InsertInPlace_end [OF assms(1), of E "Some x"] i by simp
  ultimately show ?thesis by (intro exI [of _ xs]) simp
next
  case (snoc ws l)
  let ?ys = "take i xs"
  have xs: "xs = ?ys @ ws @ [l]" using snoc append_take_drop_id [of i xs] by simp
  have leni: "length ?ys = i" using assms by simp
  then have lenxs: "length xs = Suc (i + length ws)" using xs
    by (metis add_Suc_right length_append length_append_singleton)
  with assms obtain k where c: "c = Suc (Suc (i + length ws + k))"
    using less_imp_Suc_add by (metis add_Suc)
  have k: "c - Suc (length xs) = k" using c lenxs by simp
  have c': "c = Suc (Suc (length ?ys + length ws + k))" using c leni by simp
  have fails: "inplace_fails E (drop i xs) x \<longleftrightarrow>
      move_throws E l \<or> (\<exists>y\<in>set ws. move_assign_throws E y) \<or> move_assign_throws E x"
    by (simp add: inplace_fails_def snoc)
  have mid: "InsertInPlace E (vec xs c) i (Some x) =
     (if move_throws E l then (Some ElemError, with_buffer (vec xs c) (map Obj xs @ Raw # replicate k Raw))
      else if \<exists>y\<in>set ws. move_assign_throws E y
      then (Some ElemError,
            with_buffer (vec xs c)
              (map Obj (?ys @ rev (shifted E (moved_from E l) (rev ws))) @ Obj l # replicate k Raw))
      else if move_assign_throws E x
      then (Some ElemError,
            with_buffer (vec xs c)
              (map Obj (?ys @ (if ws = [] then moved_from E l else moved_from E (hd ws)) # ws)
                 @ Obj l # replicate k Raw))
      else (None, with_buffer (vec xs c) (map Obj (?ys @ x # ws @ [l]) @ replicate k Raw)))"
  proof -
    have same: "vec xs c = with_buffer (vec xs c) (map Obj xs @ Raw # replicate k Raw)"
      using c lenxs by (simp add: with_buffer_def vec_def)
    have "InsertInPlace E (vec (?ys @ ws @ [l]) c) (length ?ys) (Some x) =
       (if move_throws E l then (Some ElemError, vec (?ys @ ws @ [l]) c)
        else if \<exists>y\<in>set ws. move_assign_throws E y
        then (Some ElemError,
              with_buffer (vec (?ys @ ws @ [l]) c)
                (map Obj (?ys @ rev (shifted E (moved_from E l) (rev ws)) @ [l]) @ replicate k Raw))
        else if move_assign_throws E x
        then (Some ElemError,
              with_buffer (vec (?ys @ ws @ [l]) c)
                (map Obj (?ys @ (if ws = [] then moved_from E l else moved_from E (hd ws)) # ws @ [l])
                   @ replicate k Raw))
        else (None, with_buffer (vec (?ys @ ws @ [l]) c) (map Obj (?ys @ x # ws @ [l]) @ replicate k Raw)))"
      by (rule InsertInPlace_middle [OF c'])
    then have "InsertInPlace E (vec xs c) i (Some x) =
       (if move_throws E l then (Some ElemError, vec xs c)
        else if \<exists>y\<in>set ws. move_assign_throws E y
        then (Some ElemError,
              with_buffer (vec xs c)
                (map Obj (?ys @ rev (shifted E (moved_from E l) (rev ws)) @ [l]) @ replicate k Raw))
        else if move_assign_throws E x
        then (Some ElemError,
              with_buffer (vec xs c)
                (map Obj (?ys @ (if ws = [] then moved_from E l else moved_from E (hd ws)) # ws @ [l])
                   @ replicate k Raw))
        else (None, with_buffer (vec xs c) (map Obj (?ys @ x # ws @ [l]) @ replicate k Raw)))"
      unfolding leni xs [symmetric] .
    with same show ?thesis by simp
  qed
  show ?thesis
  proof (cases "move_throws E l")
    case True
    with mid fails k show ?thesis
      by (intro exI [of _ xs] exI [of _ Raw]) simp
  next
    case nt: False
    show ?thesis
    proof (cases "\<exists>y\<in>set ws. move_assign_throws E y")
      case True
      with nt mid fails k lenxs leni show ?thesis
        by (intro exI [of _ "?ys @ rev (shifted E (moved_from E l) (rev ws))"] exI [of _ "Obj l"]) simp
    next
      case na: False
      show ?thesis
      proof (cases "move_assign_throws E x")
        case True
        with nt na mid fails k lenxs leni show ?thesis
          by (intro exI [of _ "?ys @ (if ws = [] then moved_from E l else moved_from E (hd ws)) # ws"]
                exI [of _ "Obj l"]) simp
      next
        case False
        with nt na mid fails k snoc show ?thesis
          by (intro exI [of _ xs] exI [of _ Raw]) simp
      qed
    qed
  qed
qed

lemma Emplace_spare:
  assumes "length xs < c" and "i \<le> length xs"
  shows "\<exists>us s. length us = length xs \<and>
     Emplace E (vec xs c) i args =
       (case args of
          None \<Rightarrow> (Inl ElemError, vec xs c)
        | Some x \<Rightarrow>
           (if inplace_fails E (drop i xs) x
            then (Inl ElemError,
                  with_buffer (vec xs c) (map Obj us @ s # replicate (c - Suc (length xs)) Raw))
            else (Inr i, vec (take i xs @ x # drop i xs) c)))"
proof (cases args)
  case None
  have "InsertInPlace E (vec xs c) i None = (Some ElemError, vec xs c)"
    by (simp add: InsertInPlace_def)
  with assms None show ?thesis
    by (intro exI [of _ xs]) (simp add: Emplace_def begin_it_def end_it_def)
next
  case (Some x)
  from InsertInPlace_vec [OF assms, of E x] obtain us s where us: "length us = length xs"
    and ip: "InsertInPlace E (vec xs c) i (Some x) =
       (if inplace_fails E (drop i xs) x
        then (Some ElemError,
              with_buffer (vec xs c) (map Obj us @ s # replicate (c - Suc (length xs)) Raw))
        else (None,
              with_buffer (vec xs c)
                (map Obj (take i xs @ x # drop i xs) @ replicate (c - Suc (length xs)) Raw)))"
    by blast
  have fin: "(with_buffer (vec xs c)
                (map Obj (take i xs @ x # drop i xs) @ replicate (c - Suc (length xs)) Raw))
              \<lparr>size_m := Suc (length xs)\<rparr> = vec (take i xs @ x # drop i xs) c"
    using assms by (simp add: with_buffer_def vec_def min_absorb2)
  from assms Some us ip fin show ?thesis
    by (intro exI [of _ us] exI [of _ s]) (simp add: Emplace_def begin_it_def end_it_def)
qed

lemma Erase_vec:
  assumes "length (ys @ e # zs) \<le> c"
  shows "Erase E (vec (ys @ e # zs) c) (length ys) =
     (if \<exists>z\<in>set zs. move_assign_throws E z
      then (Inl ElemError, vec (ys @ shifted E e zs) c)
      else (Inr (length ys), vec (ys @ zs) c))"
proof -
  from assms have "Suc (length ys + length zs) \<le> c" by simp
  then obtain k where "c = Suc (length ys + length zs) + k" using le_Suc_ex by blast
  then have c: "c = Suc (length ys + length zs + k)" by simp
  let ?buf = "map Obj ys @ Obj e # map Obj zs @ replicate k Raw"
  have buf: "GetAddress (vec (ys @ e # zs) c) = ?buf" by (simp add: c)
  have mv: "move_n E ?buf (Suc (length ys)) (length zs) (length ys) =
     (if \<exists>x\<in>set zs. move_assign_throws E x then Some ElemError else None,
      map Obj ys @ map Obj (shifted E e zs) @ replicate k Raw)"
    by (rule move_n_at [where pre = "map Obj ys"]) simp_all
  have wb: "with_buffer (vec (ys @ e # zs) c) (map Obj ys @ map Obj (shifted E e zs) @ replicate k Raw)
            = vec (ys @ shifted E e zs) c"
    by (rule with_buffer_vec) (simp_all add: c)
  have er: "Erase E (vec (ys @ e # zs) c) (length ys) =
     (if \<exists>x\<in>set zs. move_assign_throws E x
      then (Inl ElemError, vec (ys @ shifted E e zs) c)
      else (Inr (length ys),
            (with_buffer (vec (ys @ e # zs) c)
               (destroy_n (map Obj ys @ map Obj (shifted E e zs) @ replicate k Raw)
                  (length ys + length zs) 1))\<lparr>size_m := length ys + length zs\<rparr>))"
    using mv wb
    by (simp add: Erase_def begin_it_def end_it_def std_move_def buf del: GetAddress_vec)
  show ?thesis
  proof (cases "\<exists>z\<in>set zs. move_assign_throws E z")
    case True
    with er show ?thesis by simp
  next
    case False
    let ?r = "if zs = [] then e else moved_from E (last zs)"
    from False have sh: "shifted E e zs = zs @ [?r]"
      by (intro shifted_all) simp
    have "destroy_n ((map Obj ys @ map Obj zs) @ [Obj ?r] @ replicate k Raw) (length ys + length zs) 1
             = (map Obj ys @ map Obj zs) @ replicate 1 Raw @ replicate k Raw"
      by (rule destroy_n_at) simp_all
    then have d: "destroy_n (map Obj ys @ map Obj (zs @ [?r]) @ replicate k Raw) (length ys + length zs) 1
             = map Obj ys @ map Obj zs @ Raw # replicate k Raw"
      by simp
    have fin: "(with_buffer (vec (ys @ e # zs) c) (map Obj ys @ map Obj zs @ Raw # replicate k Raw))
                 \<lparr>size_m := length ys + length zs\<rparr> = vec (ys @ zs) c"
      by (simp add: with_buffer_def vec_def c)
    from False have "Erase E (vec (ys @ e # zs) c) (length ys) = (Inr (length ys),
            (with_buffer (vec (ys @ e # zs) c)
               (destroy_n (map Obj ys @ map Obj (shifted E e zs) @ replicate k Raw)
                  (length ys + length zs) 1))\<lparr>size_m := length ys + length zs\<rparr>)"
      by (simp only: er if_False)
    also have "\<dots> = (Inr (length ys), vec (ys @ zs) c)"
      by (simp only: sh d fin)
    finally show ?thesis using False by simp
  qed
qed

lemma valid_vecE:
  assumes "valid v"
  obtains xs c where "v = vec xs c" and "length xs \<le> c"
  using assms valid_is_vec [OF assms] by (metis)

lemma quiet_relocation: "quiet E xs \<Longrightarrow> set ys \<subseteq> set xs \<Longrightarrow> \<not> relocation_fails E ys"
  by (auto simp: quiet_def relocation_fails_def list_all_iff)

lemma quiet_inplace: "quiet E (x # xs) \<Longrightarrow> set zs \<subseteq> set xs \<Longrightarrow> \<not> inplace_fails E zs x"
proof -
  assume q: "quiet E (x # xs)" and sub: "set zs \<subseteq> set xs"
  have "set (butlast zs) \<subseteq> set xs" using sub by (meson in_set_butlastD subsetD subsetI)
  moreover have "zs \<noteq> [] \<Longrightarrow> last zs \<in> set xs" using sub by auto
  ultimately show ?thesis using q
    by (auto simp: quiet_def inplace_fails_def list_all_iff)
qed

lemma at_index_vec:
  "length xs \<le> c \<Longrightarrow> at_index (vec xs c) i = (if i < length xs then Some (xs ! i) else None)"
  by (simp add: at_index_def read_obj_def nth_append)

lemma Emplace_vec_cases:
  assumes "length xs \<le> c" and "i \<le> length xs"
  shows "(\<exists>e v'. Emplace E (vec xs c) i args = (Inl e, v') \<and> size_m v' = length xs \<and> Capacity v' = c)
       \<or> (\<exists>x. args = Some x \<and>
              Emplace E (vec xs c) i args =
                (Inr i, vec (take i xs @ x # drop i xs) (if length xs = c then grown c else c)))"
proof (cases "length xs = c")
  case True
  show ?thesis
  proof (cases "fits E (grown c)")
    case f: True
    from \<open>length xs = c\<close> assms(2) show ?thesis
      by (simp add: Emplace_full [OF True assms(2) f] split: option.splits)
  next
    case False
    obtain r v1 where iwr: "InsertWithReallocate E (vec xs c) i args = (r, v1)"
      by (cases "InsertWithReallocate E (vec xs c) i args")
    have "r \<noteq> None"
    proof
      assume "r = None"
      with iwr have "InsertWithReallocate E (vec xs c) i args = (None, v1)" by simp
      then have "Suc (size_m (vec xs c))
                   \<le> slots E (if size_m (vec xs c) = 0 then 1 else mul_size_t (size_m (vec xs c)) 2)"
        by (rule InsertWithReallocate_returns) (use assms(2) in simp)
      then have "fits E (grown (size_m (vec xs c)))" using growth_fits by blast
      with True False show False by simp
    qed
    then obtain e where r: "r = Some e" by blast
    from iwr r InsertWithReallocate_throws [of E "vec xs c" i args e v1]
    have "size_m v1 = length xs" and "Capacity v1 = c" by simp_all
    moreover from iwr r True assms(2) have "Emplace E (vec xs c) i args = (Inl e, v1)"
      by (simp add: Emplace_def begin_it_def end_it_def)
    ultimately show ?thesis by blast
  qed
next
  case False
  with assms have lt: "length xs < c" by simp
  from Emplace_spare [OF lt assms(2), of E args] obtain us s where
    "Emplace E (vec xs c) i args =
       (case args of
          None \<Rightarrow> (Inl ElemError, vec xs c)
        | Some x \<Rightarrow>
           (if inplace_fails E (drop i xs) x
            then (Inl ElemError,
                  with_buffer (vec xs c) (map Obj us @ s # replicate (c - Suc (length xs)) Raw))
            else (Inr i, vec (take i xs @ x # drop i xs) c)))"
    by blast
  with False show ?thesis by (simp split: option.splits)
qed

lemma Emplace_quiet:
  assumes "length xs \<le> c" and "i \<le> length xs" and "quiet E (x # xs)"
    and "length xs = c \<Longrightarrow> grants E (grown c)"
  shows "Emplace E (vec xs c) i (Some x) =
           (Inr i, vec (take i xs @ x # drop i xs) (if length xs = c then grown c else c))"
proof (cases "length xs = c")
  case True
  have q: "quiet E xs" using assms(3) by (simp add: quiet_def)
  have "\<not> relocation_fails E (take i xs)" "\<not> relocation_fails E (drop i xs)"
    using q quiet_relocation [of E xs "take i xs"] quiet_relocation [of E xs "drop i xs"]
      set_take_subset [of i xs] set_drop_subset [of i xs]
    by blast+
  moreover from assms(4) [OF True] have f: "fits E (grown c)" and "alloc_ok E (grown c * sizeof_T E)"
    by (simp_all add: grants_def)
  ultimately show ?thesis using True
    by (simp add: Emplace_full [OF True assms(2) f])
next
  case False
  with assms have lt: "length xs < c" by simp
  have "\<not> inplace_fails E (drop i xs) x"
    using assms(3) by (rule quiet_inplace) (auto dest: in_set_dropD)
  with Emplace_spare [OF lt assms(2), of E "Some x"] False show ?thesis by simp
qed

lemma Insert_quiet:
  assumes "length xs \<le> c" and "i \<le> length xs" and "quiet E (x # xs)"
    and "length xs = c \<Longrightarrow> grants E (grown c)"
  shows "Insert E (vec xs c) i x =
           (Inr i, vec (take i xs @ x # drop i xs) (if length xs = c then grown c else c))"
proof -
  from assms(3) have "\<not> copy_throws E x" by (simp add: quiet_def)
  with Emplace_quiet [OF assms] show ?thesis by (simp add: Insert_def)
qed

lemma Insert_rvalue_quiet:
  assumes "length xs \<le> c" and "i \<le> length xs" and "quiet E (x # xs)"
    and "length xs = c \<Longrightarrow> grants E (grown c)"
  shows "Insert_rvalue E (vec xs c) i x =
           (Inr i, vec (take i xs @ x # drop i xs) (if length xs = c then grown c else c))"
proof -
  from assms(3) have "\<not> move_throws E x" by (simp add: quiet_def)
  with Emplace_quiet [OF assms] show ?thesis by (simp add: Insert_rvalue_def)
qed

lemma quiet_int_like [simp]: "quiet int_like xs"
  by (simp add: quiet_def int_like_def list_all_iff)

lemma grants_int_like: "n * 4 < 2 ^ 64 \<Longrightarrow> grants int_like n"
  by (simp add: grants_def fits_def int_like_def size_t_limit_def)

lemma capacity_vec [simp]: "capacity_m (data_m (vec xs c)) = c"
  by (simp add: vec_def)

lemma EmplaceBack_vec_cases:
  assumes "length xs \<le> c"
  shows "(\<exists>e v'. EmplaceBack E (vec xs c) args = (Inl e, v') \<and> size_m v' = length xs \<and> Capacity v' = c)
       \<or> (\<exists>x. args = Some x \<and>
              EmplaceBack E (vec xs c) args =
                (Inr (length xs), vec (xs @ [x]) (if length xs = c then grown c else c)))"
proof -
  have "length xs < (if length xs = c then grown c else c)"
    using assms grown_gt [of c] by auto
  with Emplace_vec_cases [OF assms, of "length xs" E args] show ?thesis
    by (auto simp: EmplaceBack_def begin_it_def)
qed

lemma EmplaceBack_quiet:
  assumes "length xs \<le> c" and "quiet E (x # xs)" and "length xs = c \<Longrightarrow> grants E (grown c)"
  shows "EmplaceBack E (vec xs c) (Some x) =
           (Inr (length xs), vec (xs @ [x]) (if length xs = c then grown c else c))"
proof -
  have "length xs < (if length xs = c then grown c else c)"
    using assms(1) grown_gt [of c] by auto
  with Emplace_quiet [OF assms(1) le_refl assms(2,3)] show ?thesis
    by (simp add: EmplaceBack_def begin_it_def)
qed

lemma PushBack_quiet:
  assumes "length xs \<le> c" and "quiet E (x # xs)" and "length xs = c \<Longrightarrow> grants E (grown c)"
  shows "PushBack E (vec xs c) x = (None, vec (xs @ [x]) (if length xs = c then grown c else c))"
proof -
  from assms(2) have "\<not> copy_throws E x" by (simp add: quiet_def)
  with EmplaceBack_quiet [OF assms] show ?thesis by (simp add: PushBack_def)
qed

lemma PushBack_rvalue_quiet:
  assumes "length xs \<le> c" and "quiet E (x # xs)" and "length xs = c \<Longrightarrow> grants E (grown c)"
  shows "PushBack_rvalue E (vec xs c) x = (None, vec (xs @ [x]) (if length xs = c then grown c else c))"
proof -
  from assms(2) have "\<not> move_throws E x" by (simp add: quiet_def)
  with EmplaceBack_quiet [OF assms] show ?thesis by (simp add: PushBack_rvalue_def)
qed

lemma nth_inserted: "i \<le> length xs \<Longrightarrow> (take i xs @ x # drop i xs) ! i = x"
  by (simp add: nth_append)

lemma nth_erased:
  "Suc i < length xs \<Longrightarrow> (take i xs @ drop (Suc i) xs) ! i = xs ! Suc i"
  by (simp add: nth_append)

lemma Resize_vec:
  assumes "length xs \<le> c" and "c < n \<Longrightarrow> fits E n"
  shows "Resize E (vec xs c) n =
     (if n \<le> length xs then (None, vec (take n xs) c)
      else if c < n \<and> \<not> alloc_ok E (n * sizeof_T E) then (Some BadAlloc, vec xs c)
      else if c < n \<and> relocation_fails E xs then (Some ElemError, vec (left_behind E xs) c)
      else (case default_ctor E of
              None \<Rightarrow> (Some ElemError, vec xs (max c n))
            | Some d \<Rightarrow> (None, vec (xs @ replicate (n - length xs) d) (max c n))))"
proof -
  consider (shrink) "n < length xs" | (same) "n = length xs" | (grow) "length xs < n"
    by linarith
  then show ?thesis
  proof cases
    case shrink
    let ?k = "c - length xs"
    have "destroy_n (map Obj (take n xs) @ map Obj (drop n xs) @ replicate ?k Raw) n (length xs - n)
          = map Obj (take n xs) @ replicate (length xs - n) Raw @ replicate ?k Raw"
      using shrink by (intro destroy_n_at) simp_all
    moreover have "map Obj xs = map Obj (take n xs) @ map Obj (drop n xs)"
      by (simp add: map_append [symmetric] del: map_append)
    moreover have "replicate (length xs - n) (Raw :: 'a slot) @ replicate ?k Raw = replicate (c - n) Raw"
      using shrink assms(1) by (simp add: replicate_add [symmetric])
    ultimately have d: "destroy_n (map Obj xs @ replicate ?k Raw) n (length xs - n)
          = map Obj (take n xs) @ replicate (c - n) Raw"
      by simp
    from shrink d show ?thesis
      by (simp add: Resize_def with_buffer_def vec_def GetAddress_def min_absorb2)
  next
    case same
    then show ?thesis by (simp add: Resize_def)
  next
    case grow
    have construct: "(case uninitialized_value_construct_n E (GetAddress (vec xs c')) (size_m (vec xs c'))
                             (n - size_m (vec xs c')) of
                        (Some e, b) \<Rightarrow> (Some e, with_buffer (vec xs c') b)
                      | (None, b) \<Rightarrow> (None, (with_buffer (vec xs c') b)\<lparr>size_m := n\<rparr>)) =
                     (case default_ctor E of
                        None \<Rightarrow> (Some ElemError, vec xs c')
                      | Some d \<Rightarrow> (None, vec (xs @ replicate (n - length xs) d) c'))"
      if c': "n \<le> c'" for c'
    proof -
      let ?m = "n - length xs"
      let ?rest = "replicate (c' - n) (Raw :: 'a slot)"
      have split: "replicate (c' - length xs) (Raw :: 'a slot) = replicate ?m Raw @ ?rest"
        using grow c' by (simp add: replicate_add [symmetric])
      have u: "uninitialized_value_construct_n E (map Obj xs @ replicate ?m Raw @ ?rest) (length xs) ?m =
           (case default_ctor E of
              None \<Rightarrow> (if ?m = 0 then None else Some ElemError, map Obj xs @ replicate ?m Raw @ ?rest)
            | Some d \<Rightarrow> (None, map Obj xs @ replicate ?m (Obj d) @ ?rest))"
        by (rule value_construct_at) simp
      have unchanged: "with_buffer (vec xs c') (map Obj xs @ replicate ?m Raw @ ?rest) = vec xs c'"
        by (simp add: with_buffer_def vec_def split)
      have built: "(with_buffer (vec xs c') (map Obj xs @ replicate ?m (Obj d) @ ?rest))\<lparr>size_m := n\<rparr>
                  = vec (xs @ replicate ?m d) c'" for d
        using grow by (simp add: with_buffer_def vec_def)
      from grow show ?thesis
        by (simp add: split u unchanged built split: option.splits)
    qed
    show ?thesis
    proof (cases "c < n")
      case False
      then have "max c n = c" "n \<le> c" by simp_all
      with grow False construct [of c] show ?thesis
        by (simp add: Resize_def split: option.splits)
    next
      case True
      then have mx: "max c n = n" by simp
      from grow True construct [of n] show ?thesis
        by (simp add: Resize_def Reserve_vec [OF assms(1), of n E] assms(2) mx split: option.splits)
    qed
  qed
qed

lemma RawMemory_sized_0: "RawMemory_sized E 0 = Inr \<lparr>buffer_m = [], capacity_m = 0\<rparr>"
  by (simp add: RawMemory_sized_def Allocate_def)

lemma Vector_copy_vec:
  assumes "length xs \<le> c" and "xs \<noteq> [] \<Longrightarrow> fits E (length xs)"
  shows "Vector_copy E (vec xs c) =
     (if xs \<noteq> [] \<and> \<not> alloc_ok E (length xs * sizeof_T E) then Inl BadAlloc
      else if \<exists>x\<in>set xs. copy_throws E x then Inl ElemError
      else Inr (vec xs (length xs)))"
proof (cases "xs = []")
  case True
  then show ?thesis by (simp add: Vector_copy_def RawMemory_sized_0) (simp add: vec_def)
next
  case False
  have "uninitialized_copy_n E ([] @ map Obj xs @ replicate (c - length xs) Raw) 0 (length xs)
          ([] @ replicate (length xs) Raw @ []) 0 =
        (if \<exists>x\<in>set xs. copy_throws E x
         then (Some ElemError, [] @ replicate (length xs) Raw @ [])
         else (None, [] @ map Obj xs @ []))"
    by (rule uninitialized_copy_n_at) simp_all
  then show ?thesis
    using False by (simp add: Vector_copy_def RawMemory_sized_eq [OF assms(2) [OF False]]) (simp add: vec_def)
qed

lemma Swap_fst: "fst (Swap this other) = other"
  by (simp add: Swap_def RawMemory_Swap_def)

lemma copy_assign_body_reallocating:
  assumes "RawMemory_Capacity (data_m this) < size_m rhs"
  shows "copy_assign_body E this rhs =
     (case Vector_copy E rhs of Inl e \<Rightarrow> (Some e, this) | Inr temp \<Rightarrow> (None, temp))"
  using assms by (simp add: copy_assign_body_def Swap_fst split: sum.splits)

lemma copy_assign_body_in_place:
  assumes "length xs \<le> c" and "length ys \<le> c2" and "length ys \<le> c"
  shows "copy_assign_body E (vec xs c) (vec ys c2) =
     (let m = min (length ys) (length xs) in
      if \<exists>x\<in>set (take m ys). copy_assign_throws E x
      then (Some ElemError, vec (assigned_prefix E (take m ys) (take m xs) @ drop m xs) c)
      else if \<exists>x\<in>set (drop m ys). copy_throws E x
      then (Some ElemError, vec (take m ys @ drop m xs) c)
      else (None, vec ys c))"
proof -
  let ?m = "min (length ys) (length xs)"
  let ?R1 = "replicate (c - length xs) (Raw :: 'a slot)"
  let ?R2 = "replicate (c2 - length ys) (Raw :: 'a slot)"
  have src: "GetAddress (vec ys c2) = map Obj (take ?m ys) @ map Obj (drop ?m ys) @ ?R2"
    by (simp add: map_append [symmetric] del: map_append)
  have dst: "GetAddress (vec xs c) = map Obj (take ?m xs) @ map Obj (drop ?m xs) @ ?R1"
    by (simp add: map_append [symmetric] del: map_append)
  have lm: "length (take ?m ys) = ?m" "length (take ?m xs) = ?m" by simp_all
  have cn: "copy_n E ([] @ map Obj (take ?m ys) @ (map Obj (drop ?m ys) @ ?R2)) 0 ?m
              ([] @ map Obj (take ?m xs) @ (map Obj (drop ?m xs) @ ?R1)) 0 =
     (if \<exists>x\<in>set (take ?m ys). copy_assign_throws E x then Some ElemError else None,
      [] @ map Obj (assigned_prefix E (take ?m ys) (take ?m xs)) @ (map Obj (drop ?m xs) @ ?R1))"
    by (rule copy_n_at) (simp_all add: lm)
  have wb1: "with_buffer (vec xs c)
               (map Obj (assigned_prefix E (take ?m ys) (take ?m xs)) @ map Obj (drop ?m xs) @ ?R1)
             = vec (assigned_prefix E (take ?m ys) (take ?m xs) @ drop ?m xs) c"
    by (rule with_buffer_vec) (simp_all add: min_def)
  have ap: "assigned_prefix E (take ?m ys) (take ?m xs) = take ?m ys"
    if "\<not> (\<exists>x\<in>set (take ?m ys). copy_assign_throws E x)"
    using that by (intro assigned_prefix_all) (simp_all add: lm)
  show ?thesis
  proof (cases "\<exists>x\<in>set (take ?m ys). copy_assign_throws E x")
    case True
    with cn wb1 assms(3) show ?thesis
      unfolding copy_assign_body_def src dst Let_def
      by (simp add: RawMemory_Capacity_def vec_def [of xs c, THEN arg_cong [of _ _ data_m]])
  next
    case False
    note ap' = ap [OF False]
    show ?thesis
    proof (cases "length ys \<le> length xs")
      case True
      then have m: "?m = length ys" by simp
      have d: "destroy_n (map Obj ys @ map Obj (drop (length ys) xs) @ ?R1) (length ys) (length xs - length ys)
               = map Obj ys @ replicate (length xs - length ys) Raw @ ?R1"
        using True by (intro destroy_n_at) simp_all
      have r: "replicate (length xs - length ys) (Raw :: 'a slot) @ ?R1 = replicate (c - length ys) Raw"
        using True assms(1) by (simp add: replicate_add [symmetric])
      have fin: "(with_buffer (vec xs c) (map Obj ys @ replicate (c - length ys) Raw))\<lparr>size_m := length ys\<rparr>
                 = vec ys c"
        by (simp add: with_buffer_def vec_def)
      have same: "with_buffer (vec xs c) (map Obj ys @ map Obj (drop (length ys) xs) @ ?R1) \<lparr>size_m := length ys\<rparr>
                  = vec ys c" if "length ys = length xs"
        using that by (simp add: with_buffer_def vec_def)
      from False cn assms(3) True d fin same ap' show ?thesis
        unfolding copy_assign_body_def src dst Let_def
        by (simp add: RawMemory_Capacity_def m r
              vec_def [of xs c, THEN arg_cong [of _ _ data_m]])
    next
      case gt: False
      then have m: "?m = length xs" by simp
      let ?n = "length ys - length xs"
      let ?R3 = "replicate (c - length ys) (Raw :: 'a slot)"
      have r1: "?R1 = replicate ?n Raw @ ?R3"
        using gt assms(3) by (simp add: replicate_add [symmetric])
      have uc: "uninitialized_copy_n E (map Obj (take (length xs) ys) @ map Obj (drop (length xs) ys) @ ?R2)
                  (length xs) ?n (map Obj (take (length xs) ys) @ replicate ?n Raw @ ?R3) (length xs) =
         (if \<exists>x\<in>set (drop (length xs) ys). copy_throws E x
          then (Some ElemError, map Obj (take (length xs) ys) @ replicate ?n Raw @ ?R3)
          else (None, map Obj (take (length xs) ys) @ map Obj (drop (length xs) ys) @ ?R3))"
        using gt by (intro uninitialized_copy_n_at) simp_all
      have wb2: "with_buffer (vec xs c) (map Obj (take (length xs) ys) @ replicate ?n Raw @ ?R3)
                 = vec (take (length xs) ys) c"
        using gt by (intro with_buffer_vec) (simp_all add: r1 [symmetric])
      have fin: "(with_buffer (vec xs c)
                    (map Obj (take (length xs) ys) @ map Obj (drop (length xs) ys) @ ?R3))
                  \<lparr>size_m := length ys\<rparr> = vec ys c"
        by (simp add: with_buffer_def vec_def map_append [symmetric] del: map_append)
      from False cn assms(3) gt uc wb2 fin ap' show ?thesis
        unfolding copy_assign_body_def src dst Let_def
        by (simp add: RawMemory_Capacity_def m r1
              vec_def [of xs c, THEN arg_cong [of _ _ data_m]])
    qed
  qed
qed

lemma Erase_valid:
  assumes "valid v" and "pos < size_m v" and "Erase E v pos = (Inr it, v')"
  shows "valid v'"
proof -
  from assms(1) obtain xs c where v: "v = vec xs c" and le: "length xs \<le> c"
    by (rule valid_vecE)
  from assms(2) v have i: "pos < length xs" by simp
  let ?ys = "take pos xs" and ?zs = "drop (Suc pos) xs"
  have xs: "xs = ?ys @ xs ! pos # ?zs" using i by (rule id_take_nth_drop)
  have len: "length ?ys = pos" using i by simp
  have le': "length (?ys @ xs ! pos # ?zs) \<le> c" using le xs by simp
  have "Erase E (vec (?ys @ xs ! pos # ?zs) c) (length ?ys) =
     (if \<exists>z\<in>set ?zs. move_assign_throws E z
      then (Inl ElemError, vec (?ys @ shifted E (xs ! pos) ?zs) c)
      else (Inr (length ?ys), vec (?ys @ ?zs) c))"
    by (rule Erase_vec [OF le'])
  then have er: "Erase E v pos =
     (if \<exists>z\<in>set ?zs. move_assign_throws E z
      then (Inl ElemError, vec (?ys @ shifted E (xs ! pos) ?zs) c)
      else (Inr pos, vec (?ys @ ?zs) c))"
    unfolding len v xs [symmetric] .
  have "length (?ys @ ?zs) \<le> c" using le by simp
  then have "valid (vec (?ys @ ?zs) c)" by (rule valid_vec)
  with er assms(3) show ?thesis by (auto split: if_splits)
qed

lemma Vector_sized_eq:
  assumes "n \<noteq> 0 \<Longrightarrow> fits E n"
  shows "Vector_sized E n =
     (if n \<noteq> 0 \<and> \<not> alloc_ok E (n * sizeof_T E) then Inl BadAlloc
      else (case default_ctor E of
              None \<Rightarrow> (if n = 0 then Inr (vec [] 0) else Inl ElemError)
            | Some d \<Rightarrow> Inr (vec (replicate n d) n)))"
proof (cases "n = 0")
  case True
  then show ?thesis by (simp add: Vector_sized_def RawMemory_sized_0 vec_def split: option.splits)
next
  case False
  have "uninitialized_value_construct_n E ([] @ replicate n Raw @ []) 0 n =
     (case default_ctor E of
        None \<Rightarrow> (if n = 0 then None else Some ElemError, [] @ replicate n Raw @ [])
      | Some d \<Rightarrow> (None, [] @ replicate n (Obj d) @ []))"
    by (rule value_construct_at) simp
  then show ?thesis
    using False
    by (simp add: Vector_sized_def RawMemory_sized_eq [OF assms [OF False]] vec_def split: option.splits)
qed

lemma constructed_valid:
  "valid Vector_default"
  "Vector_sized E n = Inr v \<Longrightarrow> valid v"
  "valid w \<Longrightarrow> Vector_copy E w = Inr v \<Longrightarrow> valid v"
  "valid w \<Longrightarrow> valid (fst (Vector_move w)) \<and> valid (snd (Vector_move w))"
proof -
  show d: "valid (Vector_default :: 'a Vector)"
    by (simp add: valid_def Vector_default_def RawMemory_default_def)
  show "valid v" if s: "Vector_sized E n = Inr v"
  proof -
    have f: "n \<noteq> 0 \<Longrightarrow> fits E n" using s by (rule Vector_sized_returns)
    from s valid_vec [of "[]" 0] valid_vec [of "replicate n d" n for d] show ?thesis
      by (auto simp: Vector_sized_eq [OF f] split: if_splits option.splits)
  qed
  show "valid v" if "valid w" and cp: "Vector_copy E w = Inr v"
  proof -
    from that(1) obtain ys c where w: "w = vec ys c" and le: "length ys \<le> c"
      by (rule valid_vecE)
    have f: "ys \<noteq> [] \<Longrightarrow> fits E (length ys)"
      using Vector_copy_returns [OF cp] by (simp add: w)
    from cp valid_vec [of ys "length ys"] show ?thesis
      by (auto simp: w Vector_copy_vec [OF le f] split: if_splits)
  qed
  show "valid (fst (Vector_move w)) \<and> valid (snd (Vector_move w))" if "valid w"
  proof -
    have "Vector_move w = (w, Vector_default)"
      by (simp add: Vector_move_def Swap_def RawMemory_Swap_def Vector_default_def RawMemory_default_def)
    with that show ?thesis
      by (simp add: valid_def Vector_default_def RawMemory_default_def)
  qed
qed

lemma PopBack_vec:
  assumes "length xs \<le> c"
  shows "PopBack (vec xs c) =
     (if xs = [] then (Some PreconditionViolation, vec xs c) else (None, vec (butlast xs) c))"
proof (cases xs rule: rev_cases)
  case Nil
  then show ?thesis by (simp add: PopBack_def)
next
  case (snoc ys y)
  have "destroy_n (map Obj ys @ [Obj y] @ replicate (c - Suc (length ys)) Raw) (length ys) 1
        = map Obj ys @ replicate 1 Raw @ replicate (c - Suc (length ys)) Raw"
    by (rule destroy_n_at) simp_all
  moreover have "c - length ys = Suc (c - Suc (length ys))" using assms snoc by simp
  ultimately show ?thesis
    using snoc by (simp add: PopBack_def with_buffer_def vec_def GetAddress_def)
qed

lemma apply_operation_valid:
  assumes "valid v" and "source_valid E opn" and "apply_operation E v opn = (None, v')"
  shows "valid v'"
proof -
  from assms(1) obtain xs c where v: "v = vec xs c" and le: "length xs \<le> c"
    by (rule valid_vecE)
  have emplace: "valid v'" if "iterator_result (Emplace E v pos a) = (None, v')" for pos a
  proof -
    have i: "pos \<le> length xs"
      using that by (auto simp: iterator_result_def Emplace_def begin_it_def end_it_def v split: if_splits)
    have "Suc (length xs) \<le> (if length xs = c then grown c else c)"
      using le grown_gt [of c] by auto
    then have "valid (vec (take pos xs @ x # drop pos xs) (if length xs = c then grown c else c))" for x
      using i by (intro valid_vec) simp
    with Emplace_vec_cases [OF le i, of E a] that show ?thesis
      by (auto simp: iterator_result_def v)
  qed
  have emplace_back: "valid v'" if "iterator_result (EmplaceBack E v a) = (None, v')" for a
  proof -
    have "Suc (length xs) \<le> (if length xs = c then grown c else c)"
      using le grown_gt [of c] by auto
    then have "valid (vec (xs @ [x]) (if length xs = c then grown c else c))" for x
      by (intro valid_vec) simp
    with EmplaceBack_vec_cases [OF le, of E a] that show ?thesis
      by (auto simp: iterator_result_def v)
  qed
  show ?thesis
  proof (cases opn)
    case (Op_Reserve n)
    with assms(2) have f: "fits E n" by simp
    from Op_Reserve assms(3) le valid_vec [of xs n] valid_vec [of xs c] show ?thesis
      by (auto simp: v Reserve_vec [OF le f] split: if_splits)
  next
    case (Op_Resize n)
    have f: "fits E n" if "c < n"
    proof (rule ccontr)
      assume nf: "\<not> fits E n"
      from that le have "size_m v < n" "Capacity v < n" by (simp_all add: v)
      then have "fst (Resize E v n) \<noteq> None" using nf by (rule Resize_wrapped)
      with Op_Resize assms(3) show False by simp
    qed
    have "valid (vec (take n xs) c)" using le by (intro valid_vec) simp
    moreover have "valid (vec (xs @ replicate (n - length xs) d) (max c n))" if "length xs < n" for d
      using that le by (intro valid_vec) simp
    ultimately show ?thesis
      using Op_Resize assms(3)
      by (auto simp: v Resize_vec [OF le f] split: if_splits option.splits)
  next
    case (Op_PushBack x)
    with assms(3) emplace_back [of "if copy_throws E x then None else Some x"] show ?thesis
      by (auto simp: PushBack_def iterator_result_def split: prod.splits sum.splits)
  next
    case (Op_PushBack_rvalue x)
    with assms(3) emplace_back [of "if move_throws E x then None else Some x"] show ?thesis
      by (auto simp: PushBack_rvalue_def iterator_result_def split: prod.splits sum.splits)
  next
    case Op_PopBack
    have "valid (vec (butlast xs) c)" using le by (intro valid_vec) simp
    with Op_PopBack assms(3) show ?thesis
      by (auto simp: v PopBack_vec [OF le] split: if_splits)
  next
    case (Op_EmplaceBack a)
    with assms(3) emplace_back show ?thesis by simp
  next
    case (Op_Emplace pos a)
    with assms(3) emplace show ?thesis by simp
  next
    case (Op_Insert pos x)
    with assms(3) emplace show ?thesis by (simp add: Insert_def)
  next
    case (Op_Insert_rvalue pos x)
    with assms(3) emplace show ?thesis by (simp add: Insert_rvalue_def)
  next
    case (Op_Erase pos)
    with assms(3) have er: "Erase E v pos = (Inr pos, v') \<or> (\<exists>it. Erase E v pos = (Inr it, v'))"
      by (auto simp: iterator_result_def split: prod.splits sum.splits)
    then obtain it where e: "Erase E v pos = (Inr it, v')" by blast
    then have "pos < size_m v"
      by (auto simp: Erase_def begin_it_def end_it_def split: if_splits)
    with e Erase_valid [OF assms(1)] show ?thesis by blast
  next
    case (Op_CopyAssign w)
    with assms(2) obtain ys c2 where w: "w = vec ys c2" and le2: "length ys \<le> c2"
      by (auto elim: valid_vecE)
    show ?thesis
    proof (cases "c < length ys")
      case True
      then have "RawMemory_Capacity (data_m v) < size_m w"
        by (simp add: v w RawMemory_Capacity_def vec_def)
      with Op_CopyAssign assms(2,3) constructed_valid(3) [of w E] show ?thesis
        by (auto simp: copy_assign_body_reallocating split: sum.splits)
    next
      case False
      then have le3: "length ys \<le> c" by simp
      from Op_CopyAssign assms(3) valid_vec [OF le3] show ?thesis
        by (auto simp: v w copy_assign_body_in_place [OF le le2 le3] Let_def split: if_splits)
    qed
  next
    case (Op_MoveAssign w)
    with assms(2,3) show ?thesis by (simp add: Swap_fst)
  qed
qed

lemma run_valid:
  assumes "valid v" and "list_all (source_valid E) ops" and "run E v ops = (rs, v')"
    and "list_all (\<lambda>r. r = None) rs"
  shows "valid v'"
  using assms
proof (induction ops arbitrary: v rs)
  case Nil
  then show ?case by simp
next
  case (Cons opn ops)
  obtain r v1 where a: "apply_operation E v opn = (r, v1)"
    by (cases "apply_operation E v opn")
  obtain rs' v2 where b: "run E v1 ops = (rs', v2)"
    by (cases "run E v1 ops")
  from Cons.prems(3) a b have "rs = r # rs'" and "v' = v2" by simp_all
  with Cons.prems(4) have "r = None" and "list_all (\<lambda>r. r = None) rs'" by simp_all
  with Cons.prems(1,2) a have "valid v1"
    by (intro apply_operation_valid [where v = v and opn = opn and E = E and v' = v1]) simp_all
  with Cons.IH [of v1 rs'] Cons.prems(2) b \<open>list_all (\<lambda>r. r = None) rs'\<close> \<open>v' = v2\<close>
  show ?case by simp
qed

lemma Emplace_refused:
  assumes "length xs = c" and "i \<le> length xs" and "fits E (grown c)"
    and "\<not> alloc_ok E (grown c * sizeof_T E)"
  shows "Emplace E (vec xs c) i args = (Inl BadAlloc, vec xs c)"
  using assms(4) by (simp add: Emplace_full [OF assms(1-3)])

lemma Reserve_copy_failure_keeps_vector:
  assumes "\<not> nothrow_move_constructible E" and "copy_constructible E"
    and "Reserve E v n = (Some e, v')"
  shows "v' = v"
  using assms
  by (auto simp: Reserve_def MoveItemsInNewMemory_def with_buffer_def GetAddress_def
        split: if_splits sum.splits prod.splits option.splits)

text \<open>
  A request whose byte count wraps: for the four-byte type, \<^verbatim>\<open>Reserve(1 << 62)\<close> on the
  empty vector asks \<^verbatim>\<open>operator new\<close> for 0 bytes and records the capacity \<open>2 ^ 62\<close> over a
  block with no room; \<^verbatim>\<open>Resize(1 << 62)\<close> then constructs past the end of that block.
\<close>

lemma value_construct_no_room:
  "0 < n \<Longrightarrow> length buf \<le> first \<Longrightarrow>
   uninitialized_value_construct_n E buf first n = (Some PreconditionViolation, buf)"
  by (cases n) simp_all

lemma Reserve_wrapped_request:
  "Reserve int_like Vector_default (2 ^ 62) =
     (None, \<lparr>data_m = \<lparr>buffer_m = [], capacity_m = 2 ^ 62\<rparr>, size_m = 0\<rparr>)
   \<and> \<not> valid \<lparr>data_m = \<lparr>buffer_m = [] :: nat slot list, capacity_m = 2 ^ 62\<rparr>, size_m = 0\<rparr>
   \<and> Resize int_like Vector_default (2 ^ 62) =
     (Some PreconditionViolation, \<lparr>data_m = \<lparr>buffer_m = [], capacity_m = 2 ^ 62\<rparr>, size_m = 0\<rparr>)"
proof -
  have r: "Reserve int_like Vector_default (2 ^ 62) =
     (None, \<lparr>data_m = \<lparr>buffer_m = [], capacity_m = 2 ^ 62\<rparr>, size_m = 0\<rparr>)"
    by (simp add: Reserve_def Vector_default_def RawMemory_default_def Capacity_def
          RawMemory_Capacity_def RawMemory_sized_def Allocate_def mul_size_t_def size_t_limit_def
          int_like_def GetAddress_def MoveItemsInNewMemory_def RawMemory_Swap_def with_buffer_def)
  have c: "Capacity (Vector_default :: nat Vector) = 0" "size_m (Vector_default :: nat Vector) = 0"
    by (simp_all add: Vector_default_def RawMemory_default_def Capacity_def RawMemory_Capacity_def)
  have "Resize int_like Vector_default (2 ^ 62) =
     (Some PreconditionViolation, \<lparr>data_m = \<lparr>buffer_m = [], capacity_m = 2 ^ 62\<rparr>, size_m = 0\<rparr>)"
    using r by (simp add: Resize_def c GetAddress_def value_construct_no_room with_buffer_def)
  with r show ?thesis by (simp add: valid_def)
qed

section \<open>Self-assignment\<close>

text \<open>
  Claim C10. Assigning a vector to itself changes nothing: the copy assignment of the
  object at address \<open>a\<close> to itself returns normally and leaves the whole store as it was,
  and so does the move assignment, because both bodies are skipped when \<open>this\<close> and
  \<open>rhs\<close> are the same object. Size, capacity and every slot of the block are therefore
  preserved.
\<close>

theorem self_assignment_is_noop:
  "assign_copy E st a a = (None, st) \<and> assign_move st a a = st"
  by (simp add: assign_copy_def assign_move_def)

section \<open>Insertion\<close>

text \<open>
  Claim C2. Let \<open>v\<close> be a well-formed vector with elements \<open>e 0, \<dots>, e (n - 1)\<close> and \<open>pos\<close> a
  position in \<open>[0, n]\<close>. When \<^verbatim>\<open>Emplace\<close>, \<^verbatim>\<open>Insert(pos, const T&)\<close> or
  \<^verbatim>\<open>Insert(pos, T&&)\<close> at \<open>pos\<close> returns, the vector is well-formed, holds the old prefix
  \<open>e 0, \<dots>, e (pos - 1)\<close>, then the new element, then the old suffix one place to the right,
  and its size is \<open>n + 1\<close>. When the call throws, the size is still \<open>n\<close>: the size is
  incremented only after the new element and the shifted elements are in place. When no
  element operation throws and, for a full vector, the memory source grants the new block,
  each of the three calls returns, with the iterator at \<open>pos\<close>.
\<close>

theorem Emplace_inserts_at_position:
  assumes "valid v" and "pos \<le> size_m v"
  shows "(Emplace E v pos args = (Inr it, v') \<longrightarrow>
            valid v' \<and> size_m v' = size_m v + 1 \<and>
            (\<exists>x. args = Some x \<and> elems v' = take pos (elems v) @ x # drop pos (elems v)))
       \<and> (Insert E v pos val = (Inr it, v') \<longrightarrow>
            valid v' \<and> size_m v' = size_m v + 1 \<and>
            elems v' = take pos (elems v) @ val # drop pos (elems v))
       \<and> (Insert_rvalue E v pos val = (Inr it, v') \<longrightarrow>
            valid v' \<and> size_m v' = size_m v + 1 \<and>
            elems v' = take pos (elems v) @ val # drop pos (elems v))
       \<and> (Emplace E v pos args = (Inl e, v') \<longrightarrow> size_m v' = size_m v)
       \<and> (Insert E v pos val = (Inl e, v') \<longrightarrow> size_m v' = size_m v)
       \<and> (Insert_rvalue E v pos val = (Inl e, v') \<longrightarrow> size_m v' = size_m v)
       \<and> (quiet E (val # elems v) \<and> (size_m v = Capacity v \<longrightarrow> grants E (grown (size_m v))) \<longrightarrow>
            fst (Emplace E v pos (Some val)) = Inr pos \<and> fst (Insert E v pos val) = Inr pos \<and>
            fst (Insert_rvalue E v pos val) = Inr pos)"
proof -
  from assms(1) obtain xs c where v: "v = vec xs c" and le: "length xs \<le> c"
    by (rule valid_vecE)
  from assms(2) v have i: "pos \<le> length xs" by simp
  let ?c' = "if length xs = c then grown c else c"
  have c': "Suc (length xs) \<le> ?c'" using le grown_gt [of c] by auto
  have ok: "valid (vec (take pos xs @ x # drop pos xs) ?c')" for x
    using c' i by (intro valid_vec) simp
  have general: "(Emplace E v pos a = (Inr it, v') \<longrightarrow>
            valid v' \<and> size_m v' = size_m v + 1 \<and>
            (\<exists>x. a = Some x \<and> elems v' = take pos (elems v) @ x # drop pos (elems v)))
       \<and> (Emplace E v pos a = (Inl e, v') \<longrightarrow> size_m v' = size_m v)" for a
    using Emplace_vec_cases [OF le i, of E a] ok i by (auto simp: v)
  have copy: "(Insert E v pos val = (Inr it, v') \<longrightarrow>
            valid v' \<and> size_m v' = size_m v + 1 \<and>
            elems v' = take pos (elems v) @ val # drop pos (elems v))
       \<and> (Insert E v pos val = (Inl e, v') \<longrightarrow> size_m v' = size_m v)"
    using general [of "if copy_throws E val then None else Some val"]
    by (auto simp: Insert_def split: if_splits)
  have moved: "(Insert_rvalue E v pos val = (Inr it, v') \<longrightarrow>
            valid v' \<and> size_m v' = size_m v + 1 \<and>
            elems v' = take pos (elems v) @ val # drop pos (elems v))
       \<and> (Insert_rvalue E v pos val = (Inl e, v') \<longrightarrow> size_m v' = size_m v)"
    using general [of "if move_throws E val then None else Some val"]
    by (auto simp: Insert_rvalue_def split: if_splits)
  have progress: "quiet E (val # elems v) \<and> (size_m v = Capacity v \<longrightarrow> grants E (grown (size_m v))) \<longrightarrow>
            fst (Emplace E v pos (Some val)) = Inr pos \<and> fst (Insert E v pos val) = Inr pos \<and>
            fst (Insert_rvalue E v pos val) = Inr pos"
  proof (intro impI, elim conjE)
    assume q: "quiet E (val # elems v)"
      and a: "size_m v = Capacity v \<longrightarrow> grants E (grown (size_m v))"
    from q have q': "quiet E (val # xs)" by (simp add: v)
    from a have g: "length xs = c \<Longrightarrow> grants E (grown c)" by (simp add: v)
    show "fst (Emplace E v pos (Some val)) = Inr pos \<and> fst (Insert E v pos val) = Inr pos \<and>
            fst (Insert_rvalue E v pos val) = Inr pos"
      by (simp add: v Emplace_quiet [OF le i q' g] Insert_quiet [OF le i q' g]
            Insert_rvalue_quiet [OF le i q' g])
  qed
  from general [of args] copy moved progress show ?thesis by blast
qed

text \<open>
  The spec's scenario: inserting 42 at position 1 of the full \<open>[1, 2]\<close> gives \<open>[1, 42, 2]\<close>,
  by \<^verbatim>\<open>Emplace\<close> and by either \<^verbatim>\<open>Insert\<close>; inserting 42 at position 0 of \<open>[1, 2]\<close> in a
  block of 4 gives \<open>[42, 1, 2]\<close>; and \<^verbatim>\<open>Insert\<close> of a value whose copy throws leaves the
  size at 2.
\<close>

theorem Emplace_inserts_at_position_witness:
  "valid (vec [1, 2] 2 :: nat Vector) \<and> (1 :: nat) \<le> size_m (vec [1, 2 :: nat] 2)
   \<and> quiet int_like [42, 1, 2] \<and> grants int_like 4
   \<and> fst (Emplace int_like (vec [1, 2] 2) 1 (Some 42)) = Inr 1
   \<and> elems (snd (Emplace int_like (vec [1, 2] 2) 1 (Some 42))) = [1, 42, 2]
   \<and> fst (Insert int_like (vec [1, 2] 2) 1 42) = Inr 1
   \<and> elems (snd (Insert int_like (vec [1, 2] 2) 1 42)) = [1, 42, 2]
   \<and> size_m (snd (Insert int_like (vec [1, 2] 2) 1 42)) = 3
   \<and> valid (snd (Insert int_like (vec [1, 2] 2) 1 42))
   \<and> fst (Insert_rvalue int_like (vec [1, 2] 2) 1 42) = Inr 1
   \<and> elems (snd (Insert_rvalue int_like (vec [1, 2] 2) 1 42)) = [1, 42, 2]
   \<and> size_m (snd (Insert_rvalue int_like (vec [1, 2] 2) 1 42)) = 3
   \<and> valid (snd (Insert_rvalue int_like (vec [1, 2] 2) 1 42))
   \<and> valid (vec [1, 2] 4 :: nat Vector) \<and> (0 :: nat) \<le> size_m (vec [1, 2 :: nat] 4)
   \<and> fst (Insert int_like (vec [1, 2] 4) 0 42) = Inr 0
   \<and> elems (snd (Insert int_like (vec [1, 2] 4) 0 42)) = [42, 1, 2]
   \<and> fst (Insert copy_may_throw (vec [1, 2] 2) 1 2) = Inl ElemError
   \<and> size_m (snd (Insert copy_may_throw (vec [1, 2] 2) 1 2)) = 2"
proof -
  have v: "valid (vec [1, 2] 2 :: nat Vector)" and w: "valid (vec [1, 2] 4 :: nat Vector)"
    by (simp_all add: valid_vec)
  have p: "(1 :: nat) \<le> size_m (vec [1, 2 :: nat] 2)" and p0: "(0 :: nat) \<le> size_m (vec [1, 2 :: nat] 4)"
    by simp_all
  have g: "grants int_like 4" by (simp add: grants_int_like)
  note t = Emplace_inserts_at_position [OF v p, where E = int_like and val = 42 and it = 1]
  from t [where args = "Some 42" and v' = "snd (Emplace int_like (vec [1, 2] 2) 1 (Some 42))"] g
  have 1: "fst (Emplace int_like (vec [1, 2] 2) 1 (Some 42)) = Inr 1
          \<and> elems (snd (Emplace int_like (vec [1, 2] 2) 1 (Some 42))) = [1, 42, 2]"
    by (cases "Emplace int_like (vec [1, 2] 2) 1 (Some 42)") (simp add: grants_int_like grown_def)
  from t [where v' = "snd (Insert int_like (vec [1, 2] 2) 1 42)"] g
  have 2: "fst (Insert int_like (vec [1, 2] 2) 1 42) = Inr 1
   \<and> elems (snd (Insert int_like (vec [1, 2] 2) 1 42)) = [1, 42, 2]
   \<and> size_m (snd (Insert int_like (vec [1, 2] 2) 1 42)) = 3
   \<and> valid (snd (Insert int_like (vec [1, 2] 2) 1 42))"
    by (cases "Insert int_like (vec [1, 2] 2) 1 42") (simp add: grants_int_like grown_def)
  from t [where v' = "snd (Insert_rvalue int_like (vec [1, 2] 2) 1 42)"] g
  have 3: "fst (Insert_rvalue int_like (vec [1, 2] 2) 1 42) = Inr 1
   \<and> elems (snd (Insert_rvalue int_like (vec [1, 2] 2) 1 42)) = [1, 42, 2]
   \<and> size_m (snd (Insert_rvalue int_like (vec [1, 2] 2) 1 42)) = 3
   \<and> valid (snd (Insert_rvalue int_like (vec [1, 2] 2) 1 42))"
    by (cases "Insert_rvalue int_like (vec [1, 2] 2) 1 42") (simp add: grants_int_like grown_def)
  from Emplace_inserts_at_position [OF w p0, where E = int_like and val = 42 and it = 0
         and v' = "snd (Insert int_like (vec [1, 2] 4) 0 42)"]
  have 4: "fst (Insert int_like (vec [1, 2] 4) 0 42) = Inr 0
   \<and> elems (snd (Insert int_like (vec [1, 2] 4) 0 42)) = [42, 1, 2]"
    by (cases "Insert int_like (vec [1, 2] 4) 0 42") simp
  have f: "fst (Insert copy_may_throw (vec [1, 2] 2) 1 2) = Inl ElemError" by code_simp
  from Emplace_inserts_at_position [OF v p, where E = copy_may_throw and val = 2 and e = ElemError
         and v' = "snd (Insert copy_may_throw (vec [1, 2] 2) 1 2)"] f
  have 5: "size_m (snd (Insert copy_may_throw (vec [1, 2] 2) 1 2)) = 2"
    by (cases "Insert copy_may_throw (vec [1, 2] 2) 1 2") simp
  from v w p p0 g 1 2 3 4 f 5 show ?thesis by simp
qed

section \<open>Growth\<close>

text \<open>
  Claim C4. Let \<open>v\<close> be a well-formed vector whose block is full (size = capacity). An
  \<^verbatim>\<open>Emplace\<close> at a valid position, an \<^verbatim>\<open>EmplaceBack\<close> or a \<^verbatim>\<open>PushBack\<close> (of either
  overload) that returns leaves the vector with capacity \<open>max 1 (2 * size)\<close>, the size being
  the one before the call. The block asked of the memory source has that many slots: when
  the source refuses that request, each of the four calls throws the allocation error, and
  when it grants the request and no element operation throws, each of them returns.
\<close>

theorem growth_doubles_when_full:
  assumes "valid v" and "size_m v = Capacity v" and "pos \<le> size_m v"
  shows "(Emplace E v pos args = (Inr it, v') \<longrightarrow> Capacity v' = max 1 (2 * size_m v))
       \<and> (EmplaceBack E v args = (Inr r, v') \<longrightarrow> Capacity v' = max 1 (2 * size_m v))
       \<and> (PushBack E v val = (None, v') \<longrightarrow> Capacity v' = max 1 (2 * size_m v))
       \<and> (PushBack_rvalue E v val = (None, v') \<longrightarrow> Capacity v' = max 1 (2 * size_m v))
       \<and> (fits E (max 1 (2 * size_m v)) \<and> \<not> alloc_ok E (max 1 (2 * size_m v) * sizeof_T E) \<longrightarrow>
            fst (Emplace E v pos args) = Inl BadAlloc \<and> fst (EmplaceBack E v args) = Inl BadAlloc \<and>
            fst (PushBack E v val) = Some BadAlloc \<and> fst (PushBack_rvalue E v val) = Some BadAlloc)
       \<and> (quiet E (val # elems v) \<and> grants E (max 1 (2 * size_m v)) \<longrightarrow>
            fst (Emplace E v pos (Some val)) = Inr pos \<and>
            fst (EmplaceBack E v (Some val)) = Inr (size_m v) \<and>
            fst (PushBack E v val) = None \<and> fst (PushBack_rvalue E v val) = None)"
proof -
  from assms(1) obtain xs c where v: "v = vec xs c" and le: "length xs \<le> c"
    by (rule valid_vecE)
  from assms v have full: "length xs = c" and i: "pos \<le> length xs" by simp_all
  have 1: "Emplace E v pos args = (Inr it, v') \<longrightarrow> Capacity v' = max 1 (2 * size_m v)"
    using Emplace_vec_cases [OF le i, of E args] full by (auto simp: v grown_max)
  have eb: "EmplaceBack E v a = (Inr r', v') \<longrightarrow> Capacity v' = max 1 (2 * size_m v)" for a r'
    using EmplaceBack_vec_cases [OF le, of E a] full by (auto simp: v grown_max)
  have 3: "PushBack E v val = (None, v') \<longrightarrow> Capacity v' = max 1 (2 * size_m v)"
    using eb [of "if copy_throws E val then None else Some val"]
    by (auto simp: PushBack_def split: prod.splits sum.splits)
  have 4: "PushBack_rvalue E v val = (None, v') \<longrightarrow> Capacity v' = max 1 (2 * size_m v)"
    using eb [of "if move_throws E val then None else Some val"]
    by (auto simp: PushBack_rvalue_def split: prod.splits sum.splits)
  have 5: "fits E (max 1 (2 * size_m v)) \<and> \<not> alloc_ok E (max 1 (2 * size_m v) * sizeof_T E) \<longrightarrow>
            fst (Emplace E v pos args) = Inl BadAlloc \<and> fst (EmplaceBack E v args) = Inl BadAlloc \<and>
            fst (PushBack E v val) = Some BadAlloc \<and> fst (PushBack_rvalue E v val) = Some BadAlloc"
  proof (intro impI, elim conjE)
    assume "fits E (max 1 (2 * size_m v))" and "\<not> alloc_ok E (max 1 (2 * size_m v) * sizeof_T E)"
    then have f: "fits E (grown c)" and na: "\<not> alloc_ok E (grown c * sizeof_T E)"
      using full by (simp_all add: v grown_max)
    have em: "Emplace E (vec xs c) j a = (Inl BadAlloc, vec xs c)" if "j \<le> length xs" for j a
      using full that f na by (rule Emplace_refused)
    have appended: "EmplaceBack E (vec xs c) a = (Inl BadAlloc, vec xs c)" for a
      by (simp add: EmplaceBack_def begin_it_def em)
    show "fst (Emplace E v pos args) = Inl BadAlloc \<and> fst (EmplaceBack E v args) = Inl BadAlloc \<and>
            fst (PushBack E v val) = Some BadAlloc \<and> fst (PushBack_rvalue E v val) = Some BadAlloc"
      by (simp add: v em [OF i] appended PushBack_def PushBack_rvalue_def)
  qed
  have 6: "quiet E (val # elems v) \<and> grants E (max 1 (2 * size_m v)) \<longrightarrow>
            fst (Emplace E v pos (Some val)) = Inr pos \<and>
            fst (EmplaceBack E v (Some val)) = Inr (size_m v) \<and>
            fst (PushBack E v val) = None \<and> fst (PushBack_rvalue E v val) = None"
  proof (intro impI, elim conjE)
    assume "quiet E (val # elems v)" and "grants E (max 1 (2 * size_m v))"
    then have q: "quiet E (val # xs)" and g: "length xs = c \<Longrightarrow> grants E (grown c)"
      using full by (simp_all add: v grown_max)
    show "fst (Emplace E v pos (Some val)) = Inr pos \<and>
            fst (EmplaceBack E v (Some val)) = Inr (size_m v) \<and>
            fst (PushBack E v val) = None \<and> fst (PushBack_rvalue E v val) = None"
      by (simp add: v Emplace_quiet [OF le i q g] EmplaceBack_quiet [OF le q g]
            PushBack_quiet [OF le q g] PushBack_rvalue_quiet [OF le q g])
  qed
  from 1 eb [of args] 3 4 5 6 show ?thesis by blast
qed

text \<open>
  Inserting into or appending to the full \<open>[1, 2]\<close> gives capacity 4, appending to the empty
  vector capacity 1; and when the memory source refuses the 16 bytes of the new block, each
  of the four calls throws the allocation error.
\<close>

theorem growth_doubles_when_full_witness:
  "valid (vec [1, 2] 2 :: nat Vector) \<and> size_m (vec [1, 2 :: nat] 2) = Capacity (vec [1, 2 :: nat] 2)
   \<and> (1 :: nat) \<le> size_m (vec [1, 2 :: nat] 2) \<and> quiet int_like [3, 1, 2] \<and> grants int_like 4
   \<and> fst (Emplace int_like (vec [1, 2] 2) 1 (Some 3)) = Inr 1
   \<and> Capacity (snd (Emplace int_like (vec [1, 2] 2) 1 (Some 3))) = 4
   \<and> fst (EmplaceBack int_like (vec [1, 2] 2) (Some 3)) = Inr 2
   \<and> Capacity (snd (EmplaceBack int_like (vec [1, 2] 2) (Some 3))) = 4
   \<and> fst (PushBack int_like (vec [1, 2] 2) 3) = None
   \<and> Capacity (snd (PushBack int_like (vec [1, 2] 2) 3)) = 4
   \<and> fst (PushBack_rvalue int_like (vec [1, 2] 2) 3) = None
   \<and> Capacity (snd (PushBack_rvalue int_like (vec [1, 2] 2) 3)) = 4
   \<and> valid (vec [] 0 :: nat Vector) \<and> grants int_like 1
   \<and> fst (PushBack int_like (vec [] 0) 1) = None
   \<and> Capacity (snd (PushBack int_like (vec [] 0) 1)) = 1
   \<and> fits out_of_memory 4 \<and> \<not> alloc_ok out_of_memory (4 * sizeof_T out_of_memory)
   \<and> fst (Emplace out_of_memory (vec [1, 2] 2) 1 (Some 3)) = Inl BadAlloc
   \<and> fst (EmplaceBack out_of_memory (vec [1, 2] 2) (Some 3)) = Inl BadAlloc
   \<and> fst (PushBack out_of_memory (vec [1, 2] 2) 3) = Some BadAlloc
   \<and> fst (PushBack_rvalue out_of_memory (vec [1, 2] 2) 3) = Some BadAlloc"
proof -
  have v: "valid (vec [1, 2] 2 :: nat Vector)" and f: "size_m (vec [1, 2 :: nat] 2) = Capacity (vec [1, 2 :: nat] 2)"
    and p: "(1 :: nat) \<le> size_m (vec [1, 2 :: nat] 2)"
    by (simp_all add: valid_vec)
  have v0: "valid (vec [] 0 :: nat Vector)" and f0: "size_m (vec ([] :: nat list) 0) = Capacity (vec ([] :: nat list) 0)"
    and p0: "(0 :: nat) \<le> size_m (vec ([] :: nat list) 0)"
    by (simp_all add: valid_vec)
  have g: "grants int_like 4" "grants int_like 1" by (simp_all add: grants_int_like)
  note t = growth_doubles_when_full [OF v f p, where E = int_like and val = 3 and args = "Some 3"]
  from t [where v' = "snd (Emplace int_like (vec [1, 2] 2) 1 (Some 3))" and it = 1]
  have 1: "fst (Emplace int_like (vec [1, 2] 2) 1 (Some 3)) = Inr 1
   \<and> Capacity (snd (Emplace int_like (vec [1, 2] 2) 1 (Some 3))) = 4"
    by (cases "Emplace int_like (vec [1, 2] 2) 1 (Some 3)") (simp add: grants_int_like)
  from t [where v' = "snd (EmplaceBack int_like (vec [1, 2] 2) (Some 3))" and r = 2]
  have 2: "fst (EmplaceBack int_like (vec [1, 2] 2) (Some 3)) = Inr 2
   \<and> Capacity (snd (EmplaceBack int_like (vec [1, 2] 2) (Some 3))) = 4"
    by (cases "EmplaceBack int_like (vec [1, 2] 2) (Some 3)") (simp add: grants_int_like)
  from t [where v' = "snd (PushBack int_like (vec [1, 2] 2) 3)"]
  have 3: "fst (PushBack int_like (vec [1, 2] 2) 3) = None
   \<and> Capacity (snd (PushBack int_like (vec [1, 2] 2) 3)) = 4"
    by (cases "PushBack int_like (vec [1, 2] 2) 3") (simp add: grants_int_like)
  from t [where v' = "snd (PushBack_rvalue int_like (vec [1, 2] 2) 3)"]
  have 4: "fst (PushBack_rvalue int_like (vec [1, 2] 2) 3) = None
   \<and> Capacity (snd (PushBack_rvalue int_like (vec [1, 2] 2) 3)) = 4"
    by (cases "PushBack_rvalue int_like (vec [1, 2] 2) 3") (simp add: grants_int_like)
  from growth_doubles_when_full [OF v0 f0 p0, where E = int_like and val = 1
         and v' = "snd (PushBack int_like (vec [] 0) 1)"]
  have 5: "fst (PushBack int_like (vec [] 0) 1) = None
   \<and> Capacity (snd (PushBack int_like (vec [] 0) 1)) = 1"
    by (cases "PushBack int_like (vec [] 0) 1") (simp add: grants_int_like)
  have o: "fits out_of_memory 4" "\<not> alloc_ok out_of_memory (4 * sizeof_T out_of_memory)"
    by (simp_all add: out_of_memory_def int_like_def fits_def size_t_limit_def)
  from growth_doubles_when_full [OF v f p, where E = out_of_memory and val = 3 and args = "Some 3"] o
  have 6: "fst (Emplace out_of_memory (vec [1, 2] 2) 1 (Some 3)) = Inl BadAlloc
   \<and> fst (EmplaceBack out_of_memory (vec [1, 2] 2) (Some 3)) = Inl BadAlloc
   \<and> fst (PushBack out_of_memory (vec [1, 2] 2) 3) = Some BadAlloc
   \<and> fst (PushBack_rvalue out_of_memory (vec [1, 2] 2) 3) = Some BadAlloc"
    by simp
  from v f p v0 g 1 2 3 4 5 o 6 show ?thesis by simp
qed

section \<open>Erasure\<close>

text \<open>
  Claim C3. Let \<open>v\<close> be a well-formed vector with elements \<open>e 0, \<dots>, e (n - 1)\<close> and \<open>pos < n\<close>.
  When \<^verbatim>\<open>Erase\<close> at \<open>pos\<close> returns, the vector is well-formed and holds
  \<open>e 0, \<dots>, e (pos - 1), e (pos + 1), \<dots>, e (n - 1)\<close> in that order, its size is \<open>n - 1\<close> and its
  capacity is unchanged. The capacity is unchanged also when a move assignment throws
  (\<^verbatim>\<open>Erase\<close> never reallocates). When no move assignment of a later element
  throws, the call returns.
\<close>

theorem Erase_removes_position:
  assumes "valid v" and "pos < size_m v"
  shows "(Erase E v pos = (Inr it, v') \<longrightarrow>
            valid v' \<and> elems v' = take pos (elems v) @ drop (Suc pos) (elems v) \<and>
            size_m v' = size_m v - 1 \<and> Capacity v' = Capacity v)
       \<and> (Erase E v pos = (Inl e, v') \<longrightarrow>
            e = ElemError \<and> size_m v' = size_m v \<and> Capacity v' = Capacity v)
       \<and> ((\<forall>z\<in>set (drop (Suc pos) (elems v)). \<not> move_assign_throws E z) \<longrightarrow>
            fst (Erase E v pos) = Inr pos)"
proof -
  from assms(1) obtain xs c where v: "v = vec xs c" and le: "length xs \<le> c"
    by (rule valid_vecE)
  from assms(2) v have i: "pos < length xs" by simp
  let ?ys = "take pos xs" and ?zs = "drop (Suc pos) xs"
  have xs: "xs = ?ys @ xs ! pos # ?zs" using i by (rule id_take_nth_drop)
  have len: "length ?ys = pos" using i by simp
  have le': "length (?ys @ xs ! pos # ?zs) \<le> c" using le xs by simp
  have "Erase E (vec (?ys @ xs ! pos # ?zs) c) (length ?ys) =
     (if \<exists>z\<in>set ?zs. move_assign_throws E z
      then (Inl ElemError, vec (?ys @ shifted E (xs ! pos) ?zs) c)
      else (Inr (length ?ys), vec (?ys @ ?zs) c))"
    by (rule Erase_vec [OF le'])
  then have er: "Erase E v pos =
     (if \<exists>z\<in>set ?zs. move_assign_throws E z
      then (Inl ElemError, vec (?ys @ shifted E (xs ! pos) ?zs) c)
      else (Inr pos, vec (?ys @ ?zs) c))"
    unfolding len v xs [symmetric] .
  have "length (?ys @ ?zs) \<le> c" using le by simp
  then have ok: "valid (vec (?ys @ ?zs) c)" by (rule valid_vec)
  have sz: "length (?ys @ ?zs) = length xs - 1" using i by simp
  have sz': "length (?ys @ shifted E (xs ! pos) ?zs) = length xs" using i by simp
  show ?thesis
  proof (cases "\<exists>z\<in>set ?zs. move_assign_throws E z")
    case True
    with er sz' show ?thesis by (auto simp: v)
  next
    case False
    with er ok sz show ?thesis by (auto simp: v)
  qed
qed

text \<open>The spec's scenario: erasing position 0 of \<open>[1, 42, 2]\<close> gives \<open>[42, 2]\<close>.\<close>

theorem Erase_removes_position_witness:
  "valid (vec [1, 42, 2] 4 :: nat Vector) \<and> (0 :: nat) < size_m (vec [1, 42, 2 :: nat] 4)
   \<and> Erase int_like (vec [1, 42, 2] 4) 0 = (Inr 0, vec [42, 2] 4)
   \<and> elems (vec [42, 2 :: nat] 4) = [42, 2] \<and> size_m (vec [42, 2 :: nat] 4) = 2
   \<and> Capacity (vec [42, 2 :: nat] 4) = Capacity (vec [1, 42, 2 :: nat] 4)"
proof -
  have v: "valid (vec [1, 42, 2] 4 :: nat Vector)" and p: "(0 :: nat) < size_m (vec [1, 42, 2 :: nat] 4)"
    by (simp_all add: valid_vec)
  have "Erase int_like (vec ([] @ 1 # [42, 2]) 4) (length ([] :: nat list)) =
          (if \<exists>z\<in>set [42, 2]. move_assign_throws int_like z
           then (Inl ElemError, vec ([] @ shifted int_like 1 [42, 2]) 4)
           else (Inr (length ([] :: nat list)), vec ([] @ [42, 2]) 4))"
    by (rule Erase_vec) simp
  then have er: "Erase int_like (vec [1, 42, 2] 4) 0 = (Inr 0, vec [42, 2] 4)"
    by (simp add: int_like_def)
  from Erase_removes_position [OF v p, where E = int_like and it = 0 and v' = "vec [42, 2] 4"] er v p
  show ?thesis by simp
qed

section \<open>Returned iterators\<close>

text \<open>
  Claim C9. On a well-formed vector and a valid position, \<^verbatim>\<open>Emplace\<close> and both
  \<^verbatim>\<open>Insert\<close> overloads return the iterator \<open>begin + pos\<close> of the vector after the call, and
  the element there is the new one. \<^verbatim>\<open>Erase\<close> returns \<open>begin + pos\<close> as well: the element
  there is the one that followed the erased element, or the iterator is \<open>end\<close> when the last
  element was erased. \<^verbatim>\<open>EmplaceBack\<close> returns the reference to slot \<open>size - 1\<close> of the
  vector after the call, which holds the new element. The insertions return when no element
  operation throws and, for a full vector, the memory source grants the new block;
  \<^verbatim>\<open>Erase\<close> returns when no move assignment of a later element throws.
\<close>

theorem returned_iterators:
  assumes "valid v"
  shows "(pos \<le> size_m v \<and> Emplace E v pos args = (Inr it, v') \<longrightarrow>
            it = begin_it v' + pos \<and> (\<exists>x. args = Some x \<and> at_index v' it = Some x))
       \<and> (pos \<le> size_m v \<and> Insert E v pos val = (Inr it, v') \<longrightarrow>
            it = begin_it v' + pos \<and> at_index v' it = Some val)
       \<and> (pos \<le> size_m v \<and> Insert_rvalue E v pos val = (Inr it, v') \<longrightarrow>
            it = begin_it v' + pos \<and> at_index v' it = Some val)
       \<and> (pos < size_m v \<and> Erase E v pos = (Inr it, v') \<longrightarrow>
            it = begin_it v' + pos \<and>
            (if pos + 1 < size_m v
             then at_index v' it = Some (elems v ! (pos + 1)) \<and> at_index v (pos + 1) = at_index v' it
             else it = end_it v'))
       \<and> (EmplaceBack E v args = (Inr r, v') \<longrightarrow>
            r = size_m v' - 1 \<and> (\<exists>x. args = Some x \<and> at_index v' r = Some x))
       \<and> (pos \<le> size_m v \<and> quiet E (val # elems v) \<and>
            (size_m v = Capacity v \<longrightarrow> grants E (grown (size_m v))) \<longrightarrow>
            fst (Emplace E v pos (Some val)) = Inr pos \<and> fst (Insert E v pos val) = Inr pos \<and>
            fst (Insert_rvalue E v pos val) = Inr pos \<and>
            fst (EmplaceBack E v (Some val)) = Inr (size_m v))
       \<and> (pos < size_m v \<and> (\<forall>z\<in>set (drop (Suc pos) (elems v)). \<not> move_assign_throws E z) \<longrightarrow>
            fst (Erase E v pos) = Inr pos)"
proof -
  from assms obtain xs c where v: "v = vec xs c" and le: "length xs \<le> c"
    by (rule valid_vecE)
  have emplace: "Emplace E v pos a = (Inr it, v') \<longrightarrow>
            it = begin_it v' + pos \<and> (\<exists>x. a = Some x \<and> at_index v' it = Some x)"
    if i: "pos \<le> size_m v" for a
  proof -
    from i v have i': "pos \<le> length xs" by simp
    let ?c' = "if length xs = c then grown c else c"
    have c': "Suc (length xs) \<le> ?c'" using le grown_gt [of c] by auto
    have "at_index (vec (take pos xs @ x # drop pos xs) ?c') pos = Some x" for x
      using c' i' by (subst at_index_vec) (simp_all add: nth_inserted)
    with Emplace_vec_cases [OF le i', of E a] show ?thesis
      by (auto simp: v begin_it_def)
  qed
  have er: "Erase E v pos =
       (if \<exists>z\<in>set (drop (Suc pos) xs). move_assign_throws E z
        then (Inl ElemError, vec (take pos xs @ shifted E (xs ! pos) (drop (Suc pos) xs)) c)
        else (Inr pos, vec (take pos xs @ drop (Suc pos) xs) c))"
    if i': "pos < length xs"
  proof -
    let ?ys = "take pos xs" and ?zs = "drop (Suc pos) xs"
    have xs: "xs = ?ys @ xs ! pos # ?zs" using i' by (rule id_take_nth_drop)
    have len: "length ?ys = pos" using i' by simp
    have le': "length (?ys @ xs ! pos # ?zs) \<le> c" using le xs by simp
    have "Erase E (vec (?ys @ xs ! pos # ?zs) c) (length ?ys) =
       (if \<exists>z\<in>set ?zs. move_assign_throws E z
        then (Inl ElemError, vec (?ys @ shifted E (xs ! pos) ?zs) c)
        else (Inr (length ?ys), vec (?ys @ ?zs) c))"
      by (rule Erase_vec [OF le'])
    then show ?thesis
      unfolding len v xs [symmetric] .
  qed
  have erase: "Erase E v pos = (Inr it, v') \<longrightarrow>
            it = begin_it v' + pos \<and>
            (if pos + 1 < size_m v
             then at_index v' it = Some (elems v ! (pos + 1)) \<and> at_index v (pos + 1) = at_index v' it
             else it = end_it v')"
    if i: "pos < size_m v"
  proof -
    from i v have i': "pos < length xs" by simp
    let ?ys = "take pos xs" and ?zs = "drop (Suc pos) xs"
    have le2: "length (?ys @ ?zs) \<le> c" using le by simp
    have sz: "length (?ys @ ?zs) = length xs - 1" using i' by simp
    have at: "at_index (vec (?ys @ ?zs) c) pos = Some (xs ! Suc pos)" if "Suc pos < length xs"
      using that sz by (subst at_index_vec [OF le2]) (simp add: nth_erased)
    have at0: "at_index (vec xs c) (Suc pos) = Some (xs ! Suc pos)" if "Suc pos < length xs"
      using that by (simp add: at_index_vec [OF le])
    from er [OF i'] at at0 sz i' show ?thesis
      by (auto simp: v begin_it_def end_it_def split: if_splits)
  qed
  have erase_returns: "pos < size_m v \<and> (\<forall>z\<in>set (drop (Suc pos) (elems v)). \<not> move_assign_throws E z) \<longrightarrow>
            fst (Erase E v pos) = Inr pos"
  proof (intro impI, elim conjE)
    assume "pos < size_m v" and q: "\<forall>z\<in>set (drop (Suc pos) (elems v)). \<not> move_assign_throws E z"
    then have i': "pos < length xs" by (simp add: v)
    from q er [OF i'] show "fst (Erase E v pos) = Inr pos" by (simp add: v)
  qed
  have last_ref: "EmplaceBack E v args = (Inr r, v') \<longrightarrow>
            r = size_m v' - 1 \<and> (\<exists>x. args = Some x \<and> at_index v' r = Some x)"
  proof -
    let ?c' = "if length xs = c then grown c else c"
    have c': "Suc (length xs) \<le> ?c'" using le grown_gt [of c] by auto
    have "at_index (vec (xs @ [x]) ?c') (length xs) = Some x" for x
      using c' by (subst at_index_vec) simp_all
    with EmplaceBack_vec_cases [OF le, of E args] show ?thesis
      by (auto simp: v)
  qed
  have copy: "Insert E v pos val = (Inr it, v') \<longrightarrow>
            it = begin_it v' + pos \<and> at_index v' it = Some val" if "pos \<le> size_m v"
    using emplace [OF that, of "if copy_throws E val then None else Some val"]
    by (auto simp: Insert_def split: if_splits)
  have move: "Insert_rvalue E v pos val = (Inr it, v') \<longrightarrow>
            it = begin_it v' + pos \<and> at_index v' it = Some val" if "pos \<le> size_m v"
    using emplace [OF that, of "if move_throws E val then None else Some val"]
    by (auto simp: Insert_rvalue_def split: if_splits)
  have progress: "pos \<le> size_m v \<and> quiet E (val # elems v) \<and>
            (size_m v = Capacity v \<longrightarrow> grants E (grown (size_m v))) \<longrightarrow>
            fst (Emplace E v pos (Some val)) = Inr pos \<and> fst (Insert E v pos val) = Inr pos \<and>
            fst (Insert_rvalue E v pos val) = Inr pos \<and>
            fst (EmplaceBack E v (Some val)) = Inr (size_m v)"
  proof (intro impI, elim conjE)
    assume "pos \<le> size_m v" and "quiet E (val # elems v)"
      and "size_m v = Capacity v \<longrightarrow> grants E (grown (size_m v))"
    then have i: "pos \<le> length xs" and q: "quiet E (val # xs)"
      and g: "length xs = c \<Longrightarrow> grants E (grown c)"
      by (simp_all add: v)
    show "fst (Emplace E v pos (Some val)) = Inr pos \<and> fst (Insert E v pos val) = Inr pos \<and>
            fst (Insert_rvalue E v pos val) = Inr pos \<and>
            fst (EmplaceBack E v (Some val)) = Inr (size_m v)"
      by (simp add: v Emplace_quiet [OF le i q g] Insert_quiet [OF le i q g]
            Insert_rvalue_quiet [OF le i q g] EmplaceBack_quiet [OF le q g])
  qed
  from emplace [of args] copy move erase last_ref progress erase_returns show ?thesis by blast
qed

text \<open>
  Inserting 42 at position 1 of \<open>[1, 2]\<close> returns position 1, where 42 is, for
  \<^verbatim>\<open>Emplace\<close> and both \<^verbatim>\<open>Insert\<close> overloads; \<^verbatim>\<open>EmplaceBack\<close> returns slot 2, where
  42 is; erasing position 0 of \<open>[1, 42, 2]\<close> returns position 0, where 42 now is, and
  erasing its last position returns \<open>end\<close>.
\<close>

theorem returned_iterators_witness:
  "valid (vec [1, 2] 2 :: nat Vector) \<and> valid (vec [1, 42, 2] 4 :: nat Vector)
   \<and> quiet int_like [42, 1, 2] \<and> grants int_like 4
   \<and> fst (Emplace int_like (vec [1, 2] 2) 1 (Some 42)) = Inr 1
   \<and> at_index (snd (Emplace int_like (vec [1, 2] 2) 1 (Some 42))) 1 = Some 42
   \<and> fst (Insert int_like (vec [1, 2] 2) 1 42) = Inr 1
   \<and> at_index (snd (Insert int_like (vec [1, 2] 2) 1 42)) 1 = Some 42
   \<and> fst (Insert_rvalue int_like (vec [1, 2] 2) 1 42) = Inr 1
   \<and> at_index (snd (Insert_rvalue int_like (vec [1, 2] 2) 1 42)) 1 = Some 42
   \<and> fst (EmplaceBack int_like (vec [1, 2] 2) (Some 42)) = Inr 2
   \<and> at_index (snd (EmplaceBack int_like (vec [1, 2] 2) (Some 42))) 2 = Some 42
   \<and> fst (Erase int_like (vec [1, 42, 2] 4) 0) = Inr 0
   \<and> at_index (snd (Erase int_like (vec [1, 42, 2] 4) 0)) 0 = Some 42
   \<and> fst (Erase int_like (vec [1, 42, 2] 4) 2) = Inr 2
   \<and> end_it (snd (Erase int_like (vec [1, 42, 2] 4) 2)) = 2"
proof -
  have v: "valid (vec [1, 2] 2 :: nat Vector)" and w: "valid (vec [1, 42, 2] 4 :: nat Vector)"
    by (simp_all add: valid_vec)
  have g: "grants int_like 4" by (simp add: grants_int_like)
  have m: "\<not> move_assign_throws int_like z" for z by (simp add: int_like_def)
  note t = returned_iterators [OF v, where E = int_like and val = 42 and args = "Some 42" and pos = 1]
  from t [where v' = "snd (Emplace int_like (vec [1, 2] 2) 1 (Some 42))" and it = 1]
  have 1: "fst (Emplace int_like (vec [1, 2] 2) 1 (Some 42)) = Inr 1
   \<and> at_index (snd (Emplace int_like (vec [1, 2] 2) 1 (Some 42))) 1 = Some 42"
    by (cases "Emplace int_like (vec [1, 2] 2) 1 (Some 42)") (simp add: grants_int_like grown_def)
  from t [where v' = "snd (Insert int_like (vec [1, 2] 2) 1 42)" and it = 1]
  have 2: "fst (Insert int_like (vec [1, 2] 2) 1 42) = Inr 1
   \<and> at_index (snd (Insert int_like (vec [1, 2] 2) 1 42)) 1 = Some 42"
    by (cases "Insert int_like (vec [1, 2] 2) 1 42") (simp add: grants_int_like grown_def)
  from t [where v' = "snd (Insert_rvalue int_like (vec [1, 2] 2) 1 42)" and it = 1]
  have 3: "fst (Insert_rvalue int_like (vec [1, 2] 2) 1 42) = Inr 1
   \<and> at_index (snd (Insert_rvalue int_like (vec [1, 2] 2) 1 42)) 1 = Some 42"
    by (cases "Insert_rvalue int_like (vec [1, 2] 2) 1 42") (simp add: grants_int_like grown_def)
  from t [where v' = "snd (EmplaceBack int_like (vec [1, 2] 2) (Some 42))" and r = 2]
  have 4: "fst (EmplaceBack int_like (vec [1, 2] 2) (Some 42)) = Inr 2
   \<and> at_index (snd (EmplaceBack int_like (vec [1, 2] 2) (Some 42))) 2 = Some 42"
    by (cases "EmplaceBack int_like (vec [1, 2] 2) (Some 42)") (simp add: grants_int_like grown_def)
  from returned_iterators [OF w, where E = int_like and pos = 0 and it = 0
         and v' = "snd (Erase int_like (vec [1, 42, 2] 4) 0)"]
  have 5: "fst (Erase int_like (vec [1, 42, 2] 4) 0) = Inr 0
   \<and> at_index (snd (Erase int_like (vec [1, 42, 2] 4) 0)) 0 = Some 42"
    by (cases "Erase int_like (vec [1, 42, 2] 4) 0") (simp add: m)
  from returned_iterators [OF w, where E = int_like and pos = 2 and it = 2
         and v' = "snd (Erase int_like (vec [1, 42, 2] 4) 2)"]
  have 6: "fst (Erase int_like (vec [1, 42, 2] 4) 2) = Inr 2
   \<and> end_it (snd (Erase int_like (vec [1, 42, 2] 4) 2)) = 2"
    by (cases "Erase int_like (vec [1, 42, 2] 4) 2") (simp add: m)
  from v w g 1 2 3 4 5 6 show ?thesis by simp
qed

section \<open>Resizing\<close>

text \<open>
  Claim C8. Let \<open>v\<close> be a well-formed vector of size \<open>L\<close>. \<^verbatim>\<open>Resize(n)\<close> with \<open>n < L\<close>
  returns, keeps the first \<open>n\<close> elements and the capacity, and leaves the slots from \<open>n\<close> on
  uninitialised (the result is well-formed with size \<open>n\<close>, so exactly the last \<open>L - n\<close>
  elements were destroyed). When \<^verbatim>\<open>Resize(n)\<close> with \<open>n > L\<close> returns, the old elements are
  followed by \<open>n - L\<close> default-constructed ones, and the capacity is the old one if it was
  at least \<open>n\<close> and \<open>n\<close> otherwise. Whenever \<^verbatim>\<open>Resize(n)\<close> returns, the size is \<open>n\<close>. Growing
  returns when the default constructor does not throw and, if a larger block is needed,
  the memory source grants it and the relocation succeeds. When a larger block is needed
  and the byte count \<^verbatim>\<open>n * sizeof(T)\<close> wraps, the call does not return: the allocation is
  refused, or an element operation throws, or the code constructs past the end of the
  block it got.
\<close>

theorem Resize_sets_length:
  assumes "valid v"
  shows "(n < size_m v \<longrightarrow>
            Resize E v n = (None, vec (take n (elems v)) (Capacity v)) \<and>
            valid (vec (take n (elems v)) (Capacity v)))
       \<and> (size_m v < n \<and> Resize E v n = (None, v') \<longrightarrow>
            valid v' \<and> Capacity v' = max (Capacity v) n \<and>
            (\<exists>d. default_ctor E = Some d \<and> elems v' = elems v @ replicate (n - size_m v) d))
       \<and> (Resize E v n = (None, v') \<longrightarrow> size_m v' = n)
       \<and> (size_m v < n \<and> default_ctor E \<noteq> None \<and>
            (Capacity v < n \<longrightarrow> grants E n \<and> \<not> relocation_fails E (elems v)) \<longrightarrow>
            fst (Resize E v n) = None)
       \<and> (size_m v < n \<and> Capacity v < n \<and> \<not> fits E n \<longrightarrow> fst (Resize E v n) \<noteq> None)"
proof -
  from assms obtain xs c where v: "v = vec xs c" and le: "length xs \<le> c"
    by (rule valid_vecE)
  have 5: "size_m v < n \<and> Capacity v < n \<and> \<not> fits E n \<longrightarrow> fst (Resize E v n) \<noteq> None"
    using Resize_wrapped [of v n E] by blast
  have 1: "n < size_m v \<longrightarrow>
            Resize E v n = (None, vec (take n (elems v)) (Capacity v)) \<and>
            valid (vec (take n (elems v)) (Capacity v))"
  proof
    assume s: "n < size_m v"
    with le have "c < n \<Longrightarrow> fits E n" by (simp add: v)
    from Resize_vec [OF le this] s le show "Resize E v n = (None, vec (take n (elems v)) (Capacity v)) \<and>
            valid (vec (take n (elems v)) (Capacity v))"
      by (auto simp: v intro!: valid_vec)
  qed
  have grown_ok: "valid (vec (xs @ replicate (n - length xs) d) (max c n))" if "length xs < n" for d
    using that le by (intro valid_vec) simp
  have returned: "c < n \<Longrightarrow> fits E n" if "Resize E v n = (None, v')"
  proof (rule ccontr)
    assume "c < n" and "\<not> fits E n"
    with le 5 have "fst (Resize E v n) \<noteq> None" by (simp add: v)
    with that show False by simp
  qed
  have 2: "size_m v < n \<and> Resize E v n = (None, v') \<longrightarrow>
            valid v' \<and> Capacity v' = max (Capacity v) n \<and>
            (\<exists>d. default_ctor E = Some d \<and> elems v' = elems v @ replicate (n - size_m v) d)"
  proof (intro impI, elim conjE)
    assume s: "size_m v < n" and r: "Resize E v n = (None, v')"
    from Resize_vec [OF le returned [OF r]] s r grown_ok
    show "valid v' \<and> Capacity v' = max (Capacity v) n \<and>
            (\<exists>d. default_ctor E = Some d \<and> elems v' = elems v @ replicate (n - size_m v) d)"
      by (auto simp: v split: if_splits option.splits)
  qed
  have 3: "Resize E v n = (None, v') \<longrightarrow> size_m v' = n"
  proof
    assume r: "Resize E v n = (None, v')"
    from Resize_vec [OF le returned [OF r]] r show "size_m v' = n"
      by (auto simp: v split: if_splits option.splits)
  qed
  have 4: "size_m v < n \<and> default_ctor E \<noteq> None \<and>
            (Capacity v < n \<longrightarrow> grants E n \<and> \<not> relocation_fails E (elems v)) \<longrightarrow>
            fst (Resize E v n) = None"
  proof (intro impI, elim conjE)
    assume s: "size_m v < n" and d: "default_ctor E \<noteq> None"
      and g: "Capacity v < n \<longrightarrow> grants E n \<and> \<not> relocation_fails E (elems v)"
    from g have "c < n \<Longrightarrow> fits E n" by (simp add: v grants_def)
    from Resize_vec [OF le this] s d g show "fst (Resize E v n) = None"
      by (auto simp: v grants_def split: if_splits option.splits)
  qed
  from 1 2 3 4 5 show ?thesis by blast
qed

text \<open>
  The spec's scenario: \<open>[42, 2]\<close> resized to 4 is \<open>[42, 2, 0, 0]\<close>; \<open>[1, 2, 3]\<close> resized to 1
  is \<open>[1]\<close> in the same block; \<open>[7]\<close> of capacity 1 resized to 3 is \<open>[7, 0, 0]\<close> in a block
  of 3; and \<^verbatim>\<open>Resize(1 << 62)\<close> of the empty vector of a four-byte type does not return.
\<close>

theorem Resize_sets_length_witness:
  "valid (vec [42, 2] 4 :: nat Vector) \<and> valid (vec [1, 2, 3] 4 :: nat Vector)
   \<and> valid (vec [7] 1 :: nat Vector) \<and> valid (Vector_default :: nat Vector)
   \<and> size_m (vec [42, 2 :: nat] 4) < 4
   \<and> fst (Resize int_like (vec [42, 2] 4) 4) = None
   \<and> elems (snd (Resize int_like (vec [42, 2] 4) 4)) = [42, 2, 0, 0]
   \<and> size_m (snd (Resize int_like (vec [42, 2] 4) 4)) = 4
   \<and> Capacity (snd (Resize int_like (vec [42, 2] 4) 4)) = 4
   \<and> 1 < size_m (vec [1, 2, 3 :: nat] 4)
   \<and> Resize int_like (vec [1, 2, 3] 4) 1 = (None, vec [1] 4)
   \<and> grants int_like 3
   \<and> fst (Resize int_like (vec [7] 1) 3) = None
   \<and> elems (snd (Resize int_like (vec [7] 1) 3)) = [7, 0, 0]
   \<and> Capacity (snd (Resize int_like (vec [7] 1) 3)) = 3
   \<and> \<not> fits int_like (2 ^ 62)
   \<and> fst (Resize int_like Vector_default (2 ^ 62)) \<noteq> None"
proof -
  have v: "valid (vec [42, 2] 4 :: nat Vector)" and w: "valid (vec [1, 2, 3] 4 :: nat Vector)"
    and u: "valid (vec [7] 1 :: nat Vector)"
    by (simp_all add: valid_vec)
  have d: "valid (Vector_default :: nat Vector)" by (rule constructed_valid(1))
  have d0: "size_m (Vector_default :: nat Vector) = 0" "Capacity (Vector_default :: nat Vector) = 0"
    by (simp_all add: Vector_default_def RawMemory_default_def Capacity_def RawMemory_Capacity_def)
  have g: "grants int_like 3" by (simp add: grants_int_like)
  have nf: "\<not> fits int_like (2 ^ 62)" by (simp add: fits_def int_like_def size_t_limit_def)
  have dc: "default_ctor int_like = Some 0" by (simp add: int_like_def)
  have rf: "\<not> relocation_fails int_like xs" for xs
    by (rule quiet_relocation [of int_like xs]) simp_all
  from Resize_sets_length [OF v, where E = int_like and n = 4
         and v' = "snd (Resize int_like (vec [42, 2] 4) 4)"] dc
  have 1: "fst (Resize int_like (vec [42, 2] 4) 4) = None
   \<and> elems (snd (Resize int_like (vec [42, 2] 4) 4)) = [42, 2, 0, 0]
   \<and> size_m (snd (Resize int_like (vec [42, 2] 4) 4)) = 4
   \<and> Capacity (snd (Resize int_like (vec [42, 2] 4) 4)) = 4"
    by (cases "Resize int_like (vec [42, 2] 4) 4") (simp add: numeral_eq_Suc)
  from Resize_sets_length [OF w, where E = int_like and n = 1]
  have 2: "Resize int_like (vec [1, 2, 3] 4) 1 = (None, vec [1] 4)" by simp
  from Resize_sets_length [OF u, where E = int_like and n = 3
         and v' = "snd (Resize int_like (vec [7] 1) 3)"] dc g rf
  have 3: "fst (Resize int_like (vec [7] 1) 3) = None
   \<and> elems (snd (Resize int_like (vec [7] 1) 3)) = [7, 0, 0]
   \<and> Capacity (snd (Resize int_like (vec [7] 1) 3)) = 3"
    by (cases "Resize int_like (vec [7] 1) 3") (simp add: numeral_eq_Suc)
  from Resize_sets_length [OF d, where E = int_like and n = "2 ^ 62"] nf d0
  have 4: "fst (Resize int_like Vector_default (2 ^ 62)) \<noteq> None" by simp
  from v w u d g nf 1 2 3 4 show ?thesis by simp
qed

section \<open>Copy assignment into a block that is too small\<close>

text \<open>
  Claim C7. Let \<open>this\<close> and \<open>rhs\<close> be addresses of well-formed vectors, the size of the source
  larger than the capacity of the destination. When the copy assignment returns, the
  destination is the vector that the copy constructor builds from the source (the elements
  of the source in a block of exactly that many slots), and nothing else in the store
  changed. When it throws, the copy constructor threw that exception and the whole store,
  the destination included, is as before. It returns when the memory source grants the
  block and no copy of an element of the source throws.
\<close>

theorem copy_assign_reallocating:
  assumes "valid (st this)" and "valid (st rhs)" and "Capacity (st this) < size_m (st rhs)"
  shows "(assign_copy E st this rhs = (None, st') \<longrightarrow>
            Vector_copy E (st rhs) = Inr (st' this) \<and>
            st' = st(this := vec (elems (st rhs)) (size_m (st rhs))))
       \<and> (assign_copy E st this rhs = (Some e, st') \<longrightarrow>
            Vector_copy E (st rhs) = Inl e \<and> st' = st)
       \<and> ((size_m (st rhs) \<noteq> 0 \<longrightarrow> grants E (size_m (st rhs))) \<and>
            (\<forall>x\<in>set (elems (st rhs)). \<not> copy_throws E x) \<longrightarrow>
            fst (assign_copy E st this rhs) = None)"
proof -
  from assms(2) obtain ys c where rhs: "st rhs = vec ys c" and le: "length ys \<le> c"
    by (rule valid_vecE)
  have ne: "this \<noteq> rhs"
  proof
    assume "this = rhs"
    with assms(3) valid_is_vec(3) [OF assms(1)] show False by simp
  qed
  have cap: "RawMemory_Capacity (data_m (st this)) < size_m (st rhs)"
    using assms(3) by (simp add: Capacity_def)
  have body: "assign_copy E st this rhs =
     (case Vector_copy E (st rhs) of
        Inl e \<Rightarrow> (Some e, st)
      | Inr temp \<Rightarrow> (None, st(this := temp)))"
    using ne by (simp add: assign_copy_def copy_assign_body_reallocating [OF cap] split: sum.splits)
  have returned: "temp = vec ys (length ys)" if cp: "Vector_copy E (st rhs) = Inr temp" for temp
  proof -
    have f: "ys \<noteq> [] \<Longrightarrow> fits E (length ys)"
      using Vector_copy_returns [OF cp] by (simp add: rhs)
    from cp show ?thesis
      by (auto simp: rhs Vector_copy_vec [OF le f] split: if_splits)
  qed
  have 1: "assign_copy E st this rhs = (None, st') \<longrightarrow>
            Vector_copy E (st rhs) = Inr (st' this) \<and>
            st' = st(this := vec (elems (st rhs)) (size_m (st rhs)))"
    unfolding body using returned by (auto simp: rhs split: sum.splits)
  have 2: "assign_copy E st this rhs = (Some e, st') \<longrightarrow>
            Vector_copy E (st rhs) = Inl e \<and> st' = st"
    unfolding body by (auto split: sum.splits)
  have 3: "(size_m (st rhs) \<noteq> 0 \<longrightarrow> grants E (size_m (st rhs))) \<and>
            (\<forall>x\<in>set (elems (st rhs)). \<not> copy_throws E x) \<longrightarrow>
            fst (assign_copy E st this rhs) = None"
  proof (intro impI, elim conjE)
    assume g: "size_m (st rhs) \<noteq> 0 \<longrightarrow> grants E (size_m (st rhs))"
      and q: "\<forall>x\<in>set (elems (st rhs)). \<not> copy_throws E x"
    from g have f: "ys \<noteq> [] \<Longrightarrow> fits E (length ys)" by (simp add: rhs grants_def)
    from g q show "fst (assign_copy E st this rhs) = None"
      unfolding body by (auto simp: rhs Vector_copy_vec [OF le f] grants_def)
  qed
  from 1 2 3 show ?thesis by blast
qed

text \<open>Assigning \<open>[1, 2, 3]\<close> to the vector \<open>[1]\<close> of capacity 1.\<close>

theorem copy_assign_reallocating_witness:
  "valid (two_vectors 0) \<and> valid (two_vectors 1)
   \<and> Capacity (two_vectors 0) < size_m (two_vectors 1)
   \<and> assign_copy int_like two_vectors 0 1 = (None, two_vectors(0 := vec [1, 2, 3] 3))"
proof -
  have v: "valid (two_vectors 0)" and w: "valid (two_vectors 1)"
    and c: "Capacity (two_vectors 0) < size_m (two_vectors 1)"
    by (simp_all add: two_vectors_def valid_vec)
  have e: "elems (two_vectors 1) = [1, 2, 3]" "size_m (two_vectors 1) = 3"
    by (simp_all add: two_vectors_def)
  have g: "grants int_like 3" by (simp add: grants_int_like)
  obtain r st' where a: "assign_copy int_like two_vectors 0 1 = (r, st')"
    by (cases "assign_copy int_like two_vectors 0 1")
  from copy_assign_reallocating [OF v w c, where E = int_like and st' = st'] a e g
  have "r = None" and "st' = two_vectors(0 := vec [1, 2, 3] 3)"
    by (simp_all add: int_like_def)
  with a v w c show ?thesis by simp
qed

section \<open>The relocation policy\<close>

text \<open>
  Claim C6 says that during every relocation, that of a reallocating insertion included, an
  element is copied when the move constructor may throw, and the original is left
  untouched until the whole relocation succeeded. \<^verbatim>\<open>Reserve\<close> relocates by one call of
  \<^verbatim>\<open>MoveItemsInNewMemory\<close> and does so (lemma \<open>Reserve_copy_failure_keeps_vector\<close>; the
  last line below is its relocation of \<open>[1, 2]\<close>). \<^verbatim>\<open>InsertWithReallocate\<close> relocates by
  two calls, and each call ends with \<^verbatim>\<open>std::destroy_n\<close> on its originals. For the copyable
  type whose copy constructor throws on 2, inserting 9 at position 1 of the full \<open>[1, 2]\<close>:
  the first call copies 1 into the new block and destroys the original 1; the second call
  throws at the copy of 2. The relocation failed and the original of 1 is gone.
\<close>

theorem insertion_destroys_originals_before_relocation_ends:
  "\<not> nothrow_move_constructible copy_may_throw \<and> copy_constructible copy_may_throw
   \<and> MoveItemsInNewMemory copy_may_throw [Obj 1, Obj 2] 0 [Raw, Obj 9, Raw, Raw] 0 1
       = (None, [Raw, Obj 2], [Obj 1, Obj 9, Raw, Raw])
   \<and> MoveItemsInNewMemory copy_may_throw [Raw, Obj 2] 1 [Obj 1, Obj 9, Raw, Raw] 2 1
       = (Some ElemError, [Raw, Obj 2], [Obj 1, Obj 9, Raw, Raw])
   \<and> InsertWithReallocate copy_may_throw (vec [1, 2] 2) 1 (Some 9)
       = (Some ElemError, \<lparr>data_m = \<lparr>buffer_m = [Raw, Obj 2], capacity_m = 2\<rparr>, size_m = 2\<rparr>)
   \<and> MoveItemsInNewMemory copy_may_throw [Obj 1, Obj 2] 0 [Raw, Raw, Raw, Raw] 0 2
       = (Some ElemError, [Obj 1, Obj 2], [Raw, Raw, Raw, Raw])"
  by code_simp

section \<open>The strong guarantee\<close>

text \<open>
  Claim C1 says that a failed \<^verbatim>\<open>Reserve\<close> and a failed reallocating
  \<^verbatim>\<open>Emplace\<close>, \<^verbatim>\<open>Insert\<close> or \<^verbatim>\<open>PushBack\<close> leave the vector with the same size, capacity
  and element values. For the copyable type whose copy constructor throws on 2 and the full
  vector \<open>[1, 2, 3]\<close>, \<^verbatim>\<open>Reserve(6)\<close> and \<^verbatim>\<open>PushBack(9)\<close> fail at the copy of 2 and leave
  the vector as it was. \<^verbatim>\<open>Emplace\<close> of 9 at position 1 fails at the same copy, after the
  original of 1 was destroyed: the vector keeps size 3 and capacity 3, slot 0 is
  uninitialised, and the element values are no longer \<open>1, 2, 3\<close>. The two calls of
  \<^verbatim>\<open>MoveItemsInNewMemory\<close> are the ones this \<^verbatim>\<open>Emplace\<close> makes: when the second one throws,
  the new block still holds the copy of 1 and the new element 9, and the unwinding frees
  that block (\<^verbatim>\<open>~RawMemory\<close> calls \<^verbatim>\<open>Deallocate\<close> only).
\<close>

theorem failed_Emplace_changes_vector:
  "valid (vec [1, 2, 3] 3 :: nat Vector)
   \<and> size_m (vec [1, 2, 3 :: nat] 3) = Capacity (vec [1, 2, 3 :: nat] 3)
   \<and> copy_constructible copy_may_throw \<and> \<not> nothrow_move_constructible copy_may_throw
   \<and> Emplace copy_may_throw (vec [1, 2, 3] 3) 1 (Some 9) =
       (Inl ElemError, \<lparr>data_m = \<lparr>buffer_m = [Raw, Obj 2, Obj 3], capacity_m = 3\<rparr>, size_m = 3\<rparr>)
   \<and> GetAddress (vec [1, 2, 3 :: nat] 3) = [Obj 1, Obj 2, Obj 3]
   \<and> at_index (vec [1, 2, 3 :: nat] 3) 0 = Some 1
   \<and> at_index \<lparr>data_m = \<lparr>buffer_m = [Raw, Obj 2, Obj (3 :: nat)], capacity_m = 3\<rparr>, size_m = 3\<rparr> 0 = None
   \<and> elems \<lparr>data_m = \<lparr>buffer_m = [Raw, Obj 2, Obj (3 :: nat)], capacity_m = 3\<rparr>, size_m = 3\<rparr> = [2, 3]
   \<and> MoveItemsInNewMemory copy_may_throw [Obj 1, Obj 2, Obj 3] 0 [Raw, Obj 9, Raw, Raw, Raw, Raw] 0 1
       = (None, [Raw, Obj 2, Obj 3], [Obj 1, Obj 9, Raw, Raw, Raw, Raw])
   \<and> MoveItemsInNewMemory copy_may_throw [Raw, Obj 2, Obj 3] 1 [Obj 1, Obj 9, Raw, Raw, Raw, Raw] 2 2
       = (Some ElemError, [Raw, Obj 2, Obj 3], [Obj 1, Obj 9, Raw, Raw, Raw, Raw])
   \<and> Reserve copy_may_throw (vec [1, 2, 3] 3) 6 = (Some ElemError, vec [1, 2, 3] 3)
   \<and> PushBack copy_may_throw (vec [1, 2, 3] 3) 9 = (Some ElemError, vec [1, 2, 3] 3)"
  by code_simp

section \<open>The invariant after a failed insertion\<close>

text \<open>
  Claim C5 says that every state a sequence of operations produces is well-formed: the
  first \<open>size\<close> slots hold live elements and the size is at most the capacity. That holds
  as long as every operation returns and no \<^verbatim>\<open>Reserve\<close> asks for a byte count that
  wraps (lemma \<open>run_valid\<close>). It fails after an insertion that throws: the reallocating
  insertion relocates the elements before the position and the elements after it by two
  calls of \<^verbatim>\<open>MoveItemsInNewMemory\<close>, and the first call destroys the originals it
  relocated. For the copyable type above, two \<^verbatim>\<open>EmplaceBack\<close> calls on the empty vector
  give the full vector \<open>[1, 2]\<close>; inserting 9 at position 1 copies 1, destroys the original
  1, and throws at the copy of 2. The vector is left with size 2, capacity 2 and an
  uninitialised slot 0.
\<close>

theorem failed_Insert_leaves_destroyed_slot:
  "run copy_may_throw Vector_default [Op_EmplaceBack (Some 1), Op_EmplaceBack (Some 2), Op_Insert 1 9] =
     ([None, None, Some ElemError],
      \<lparr>data_m = \<lparr>buffer_m = [Raw, Obj 2], capacity_m = 2\<rparr>, size_m = 2\<rparr>)
   \<and> \<not> list_all is_obj (take 2 [Raw, Obj (2 :: nat)])
   \<and> \<not> valid \<lparr>data_m = \<lparr>buffer_m = [Raw, Obj (2 :: nat)], capacity_m = 2\<rparr>, size_m = 2\<rparr>
   \<and> at_index \<lparr>data_m = \<lparr>buffer_m = [Raw, Obj (2 :: nat)], capacity_m = 2\<rparr>, size_m = 2\<rparr> 0 = None"
  by code_simp

end
